theory Spec2Isabelle
  imports Complex_Main "HOL-Library.Multiset" "HOL-Library.Product_Lexorder"
    "HOL-Library.List_Lexorder" "HOL-Library.Char_ord"
begin

section \<open>BM25 equivalence check: the scoring-and-comparison core\<close>

text \<open>
  The development embeds the pure functions of \<^verbatim>\<open>tools/bm25_equiv_strict.py\<close> and
  \<^verbatim>\<open>tools/bm25_equiv.py\<close>: normalisation, tokenisation, corpus statistics, the BM25
  scorer, the top-K selector, the reconstruction expander and the positional diff.

  Conventions of the embedding.
  \<^item> A Python \<^verbatim>\<open>str\<close> is a list of code points. Normalisation is embedded over any
    alphabet of code points, with the whitespace test and the lower-casing of the Python
    runtime as parameters. The functions that are run on examples use \<^typ>\<open>string\<close>, a
    character standing for the code point of the same number (U+0000..U+00FF), with
    \<^verbatim>\<open>str.isspace\<close>, the regex class \<^verbatim>\<open>\s\<close> and \<^verbatim>\<open>str.lower\<close> written out for that range.
    Strings compare as Python compares them: lexicographically by code point, a proper
    prefix being smaller.
  \<^item> A Python \<^verbatim>\<open>float\<close> is a \<^typ>\<open>real\<close>: rounding is not modelled. Python integers are
    \<^typ>\<open>int\<close>, lengths and frequencies are \<^typ>\<open>nat\<close>.
  \<^item> A raise is a value: functions that can raise return \<open>py_error + 'a\<close>.
\<close>

datatype py_error = IndexError | ZeroDivisionError | ValueError

subsection \<open>Normalisation and tokenisation\<close>

definition isspace :: "char \<Rightarrow> bool" where
  \<comment> \<open>\<^verbatim>\<open>str.isspace\<close> and the regex class \<^verbatim>\<open>\s\<close> on one character: TAB..CR, FS..US, space,
     NEL (U+0085) and the no-break space (U+00A0).\<close>
  "isspace c =
     (let n = (of_char c :: nat)
      in (9 \<le> n \<and> n \<le> 13) \<or> (28 \<le> n \<and> n \<le> 32) \<or> n = 133 \<or> n = 160)"

definition lower_char :: "char \<Rightarrow> char" where
  \<comment> \<open>\<^verbatim>\<open>str.lower\<close> on one character: A..Z and the capital letters U+00C0..U+00DE
     (the multiplication sign U+00D7 is no letter) move up by 32.\<close>
  "lower_char c =
     (let n = (of_char c :: nat)
      in if (65 \<le> n \<and> n \<le> 90) \<or> (192 \<le> n \<and> n \<le> 222 \<and> n \<noteq> 215)
         then char_of (n + 32) else c)"

definition lower :: "string \<Rightarrow> string" where
  "lower s = map lower_char s"

text \<open>
  Normalisation over any alphabet of code points. The three things
  \<^verbatim>\<open>norm_ws_lower\<close> takes from the Python runtime are parameters: \<open>ws\<close> is the whitespace
  test (\<^verbatim>\<open>str.isspace\<close>; the regex class \<^verbatim>\<open>\s\<close> and \<^verbatim>\<open>str.strip\<close> use the same test),
  \<open>sp\<close> is the space character and \<open>low\<close> is \<^verbatim>\<open>str.lower\<close>, a function on whole strings
  (it may change the length and look at neighbouring characters).
\<close>

function sub_ws_of :: "('c \<Rightarrow> bool) \<Rightarrow> 'c \<Rightarrow> 'c list \<Rightarrow> 'c list" where
  \<comment> \<open>\<^verbatim>\<open>re.sub(r"\s+", " ", s)\<close>: every maximal run of whitespace becomes one space.\<close>
  "sub_ws_of ws sp [] = []"
| "sub_ws_of ws sp (c # cs) =
     (if ws c then sp # sub_ws_of ws sp (dropWhile ws cs) else c # sub_ws_of ws sp cs)"
  by pat_completeness auto
termination
  by (relation "measure (\<lambda>(ws, sp, s). length s)")
    (auto simp: length_dropWhile_le less_Suc_eq_le)

definition strip_of :: "('c \<Rightarrow> bool) \<Rightarrow> 'c list \<Rightarrow> 'c list" where
  \<comment> \<open>\<^verbatim>\<open>s.strip()\<close>: leading whitespace goes, then trailing whitespace.\<close>
  "strip_of ws s = rev (dropWhile ws (rev (dropWhile ws s)))"

definition norm_ws_lower_of ::
  "('c \<Rightarrow> bool) \<Rightarrow> 'c \<Rightarrow> ('c list \<Rightarrow> 'c list) \<Rightarrow> 'c list \<Rightarrow> 'c list" where
  \<comment> \<open>\<^verbatim>\<open>re.sub(r"\s+", " ", s).strip().lower()\<close>\<close>
  "norm_ws_lower_of ws sp low s = low (strip_of ws (sub_ws_of ws sp s))"

definition lower_like :: "('c \<Rightarrow> bool) \<Rightarrow> ('c list \<Rightarrow> 'c list) \<Rightarrow> bool" where
  \<comment> \<open>What the proof takes from \<^verbatim>\<open>str.lower\<close>: lower-casing twice is lower-casing once;
     a whitespace character stays as it is and the stretches on its two sides are
     lower-cased separately; a string without whitespace stays without whitespace; only
     the empty string becomes empty.\<close>
  "lower_like ws low =
     (low [] = []
      \<and> (\<forall>s. low (low s) = low s)
      \<and> (\<forall>xs c ys. ws c \<longrightarrow> low (xs @ c # ys) = low xs @ c # low ys)
      \<and> (\<forall>s. (\<forall>c\<in>set s. \<not> ws c) \<longrightarrow> (\<forall>c\<in>set (low s). \<not> ws c))
      \<and> (\<forall>s. low s = [] \<longrightarrow> s = []))"

text \<open>The instance the rest of the development runs: code points below 256.\<close>

definition sub_ws :: "string \<Rightarrow> string" where
  "sub_ws s = sub_ws_of isspace (CHR '' '') s"

definition strip :: "string \<Rightarrow> string" where
  "strip s = strip_of isspace s"

definition norm_ws_lower :: "string \<Rightarrow> string" where
  "norm_ws_lower s = lower (strip (sub_ws s))"

definition is_word_char :: "char \<Rightarrow> bool" where
  \<comment> \<open>the class \<^verbatim>\<open>[a-z0-9]\<close>\<close>
  "is_word_char c =
     (let n = (of_char c :: nat) in (97 \<le> n \<and> n \<le> 122) \<or> (48 \<le> n \<and> n \<le> 57))"

function findall_word :: "string \<Rightarrow> string list" where
  \<comment> \<open>\<^verbatim>\<open>WORD.findall(s)\<close> for \<^verbatim>\<open>WORD = re.compile(r"[a-z0-9]+")\<close>: the maximal runs, left to right.\<close>
  "findall_word [] = []"
| "findall_word (c # cs) =
     (if is_word_char c
      then (c # takeWhile is_word_char cs) # findall_word (dropWhile is_word_char cs)
      else findall_word cs)"
  by pat_completeness auto
termination
  by (relation "measure length") (auto simp: length_dropWhile_le less_Suc_eq_le)

definition tokenize :: "string \<Rightarrow> string list" where
  "tokenize s = findall_word (lower s)"

subsection \<open>Corpus statistics\<close>

type_synonym counter = "string \<rightharpoonup> int"

definition counter_get :: "counter \<Rightarrow> string \<Rightarrow> int" where
  \<comment> \<open>\<^verbatim>\<open>c.get(key, 0)\<close>\<close>
  "counter_get c key = (case c key of None \<Rightarrow> 0 | Some v \<Rightarrow> v)"

definition counter_update :: "counter \<Rightarrow> string list \<Rightarrow> counter" where
  \<comment> \<open>\<^verbatim>\<open>c.update(xs)\<close>: one more for every element of the iterable\<close>
  "counter_update c xs = fold (\<lambda>x m. m(x \<mapsto> counter_get m x + 1)) xs c"

definition build_df :: "string list list \<Rightarrow> counter" where
  \<comment> \<open>\<^verbatim>\<open>df = Counter()\<close>, then \<^verbatim>\<open>df.update(set(t))\<close> for every token list; \<^verbatim>\<open>set(t)\<close> is
     walked as \<^term>\<open>remdups t\<close> (the order of a set's elements does not reach the counter).\<close>
  "build_df toks = fold (\<lambda>t df. counter_update df (remdups t)) toks Map.empty"

definition build_full_stats ::
  "string list \<Rightarrow> string list list \<times> nat list \<times> int \<times> real \<times> counter" where
  "build_full_stats full_docs =
     (let toks = map tokenize full_docs;
          dl = map length toks;
          N = int (length toks);
          avgdl = (if N \<noteq> 0 then real (sum_list dl) / real_of_int N else 0);
          df = build_df toks
      in (toks, dl, N, avgdl, df))"

subsection \<open>The BM25 scorer\<close>

definition k1_default :: real where
  "k1_default = 12 / 10"

definition b_default :: real where
  "b_default = 75 / 100"

definition idf_arg :: "string \<Rightarrow> int \<Rightarrow> counter \<Rightarrow> real" where
  \<comment> \<open>the argument of the logarithm in \<^verbatim>\<open>idf\<close>; \<^verbatim>\<open>n + 0.5\<close> is never 0 for an integer \<^verbatim>\<open>n\<close>\<close>
  "idf_arg q N df =
     (let n = counter_get df q
      in (real_of_int N - real_of_int n + 0.5) / (real_of_int n + 0.5) + 1.0)"

definition idf :: "string \<Rightarrow> int \<Rightarrow> counter \<Rightarrow> py_error + real" where
  \<comment> \<open>\<^verbatim>\<open>math.log\<close> raises ValueError outside its domain\<close>
  "idf q N df = (if idf_arg q N df \<le> 0 then Inl ValueError else Inr (ln (idf_arg q N df)))"

definition bm25_denom :: "nat \<Rightarrow> nat \<Rightarrow> real \<Rightarrow> real \<Rightarrow> real \<Rightarrow> real" where
  \<comment> \<open>\<^verbatim>\<open>denom = f + k1 * (1.0 - b + b * (dl / avgdl if avgdl else 0.0))\<close>\<close>
  "bm25_denom f dl avgdl k1 b =
     real f + k1 * (1.0 - b + b * (if avgdl \<noteq> 0 then real dl / avgdl else 0.0))"

fun bm25_loop ::
  "(string \<Rightarrow> nat) \<Rightarrow> nat \<Rightarrow> int \<Rightarrow> real \<Rightarrow> counter \<Rightarrow> real \<Rightarrow> real \<Rightarrow> string list \<Rightarrow> real
     \<Rightarrow> py_error + real" where
  \<comment> \<open>the loop \<^verbatim>\<open>for q in q_terms\<close>, with the running sum \<^verbatim>\<open>s\<close>\<close>
  "bm25_loop tf dl N avgdl df k1 b [] s = Inr s"
| "bm25_loop tf dl N avgdl df k1 b (q # qs) s =
     (let f = tf q
      in if f = 0 then bm25_loop tf dl N avgdl df k1 b qs s
         else
           let denom = bm25_denom f dl avgdl k1 b
           in case idf q N df of
                Inl e \<Rightarrow> Inl e
              | Inr w \<Rightarrow>
                  if denom = 0 then Inl ZeroDivisionError
                  else bm25_loop tf dl N avgdl df k1 b qs (s + w * (real f * (k1 + 1.0) / denom)))"

definition bm25_score_doc ::
  "string list \<Rightarrow> string list \<Rightarrow> int \<Rightarrow> real \<Rightarrow> counter \<Rightarrow> real \<Rightarrow> real \<Rightarrow> py_error + real" where
  \<comment> \<open>\<^verbatim>\<open>tf = Counter(doc_tokens)\<close>, so \<^verbatim>\<open>tf.get(q, 0)\<close> is \<^term>\<open>count_list doc_tokens q\<close>\<close>
  "bm25_score_doc doc_tokens q_terms N avgdl df k1 b =
     bm25_loop (count_list doc_tokens) (length doc_tokens) N avgdl df k1 b q_terms 0.0"

fun map_err :: "('a \<Rightarrow> py_error + 'b) \<Rightarrow> 'a list \<Rightarrow> py_error + 'b list" where
  \<comment> \<open>a list comprehension over a function that can raise: the first raise ends it\<close>
  "map_err g [] = Inr []"
| "map_err g (x # xs) =
     (case g x of
        Inl e \<Rightarrow> Inl e
      | Inr y \<Rightarrow> (case map_err g xs of Inl e \<Rightarrow> Inl e | Inr ys \<Rightarrow> Inr (y # ys)))"

definition bm25_scores ::
  "string list \<Rightarrow> string list \<Rightarrow> real \<Rightarrow> real \<Rightarrow> py_error + (real list \<times> counter \<times> real)" where
  \<comment> \<open>\<^verbatim>\<open>bm25_scores\<close> of \<^verbatim>\<open>bm25_equiv.py\<close>: the statistics of \<^verbatim>\<open>docs\<close> and the scores of
     \<^verbatim>\<open>docs\<close> against them, by the same loop body\<close>
  "bm25_scores docs query_terms k1 b =
     (let N = int (length docs);
          toks = map tokenize docs;
          dl = map length toks;
          avgdl = (if N \<noteq> 0 then real (sum_list dl) / real_of_int N else 0);
          df = build_df toks
      in case map_err
             (\<lambda>(i, t). bm25_loop (count_list t) (dl ! i) N avgdl df k1 b query_terms 0.0)
             (enumerate 0 toks) of
           Inl e \<Rightarrow> Inl e
         | Inr scores \<Rightarrow> Inr (scores, df, avgdl))"

text \<open>The formula of the specification, section 4.3, in its own words: a sum over the
  query terms in order, a term of frequency 0 contributing nothing.\<close>

definition idf_formula :: "string \<Rightarrow> int \<Rightarrow> counter \<Rightarrow> real" where
  "idf_formula q N df =
     ln ((real_of_int N - real_of_int (counter_get df q) + 0.5)
           / (real_of_int (counter_get df q) + 0.5) + 1.0)"

definition len_ratio :: "nat \<Rightarrow> real \<Rightarrow> real" where
  \<comment> \<open>doclen/avgdl, taken to be 0 when avgdl is 0\<close>
  "len_ratio doclen avgdl = (if avgdl = 0 then 0 else real doclen / avgdl)"

definition bm25_term :: "string list \<Rightarrow> int \<Rightarrow> real \<Rightarrow> counter \<Rightarrow> real \<Rightarrow> real \<Rightarrow> string \<Rightarrow> real" where
  "bm25_term doc N avgdl df k1 b q =
     (let f = real (count_list doc q)
      in if f = 0 then 0
         else idf_formula q N df * (f * (k1 + 1))
                / (f + k1 * (1 - b + b * len_ratio (length doc) avgdl)))"

definition bm25_formula ::
  "string list \<Rightarrow> string list \<Rightarrow> int \<Rightarrow> real \<Rightarrow> counter \<Rightarrow> real \<Rightarrow> real \<Rightarrow> real" where
  "bm25_formula doc q_terms N avgdl df k1 b =
     sum_list (map (bm25_term doc N avgdl df k1 b) q_terms)"

definition empty_stats_term :: "string list \<Rightarrow> string \<Rightarrow> real" where
  \<comment> \<open>what a query term adds against N = 0, avgdl = 0 and an empty df\<close>
  "empty_stats_term doc q =
     (if count_list doc q = 0 then 0
      else ln 2 * (real (count_list doc q) * (22 / 10)) / (real (count_list doc q) + 3 / 10))"

definition term_defined :: "string list \<Rightarrow> int \<Rightarrow> real \<Rightarrow> counter \<Rightarrow> real \<Rightarrow> real \<Rightarrow> string \<Rightarrow> bool" where
  \<comment> \<open>the term of \<^verbatim>\<open>q\<close> has a value: the logarithm's argument is positive and the
     denominator is not 0\<close>
  "term_defined doc N avgdl df k1 b q =
     (count_list doc q = 0 \<or>
      (0 < idf_arg q N df \<and> bm25_denom (count_list doc q) (length doc) avgdl k1 b \<noteq> 0))"

definition stats_ok :: "int \<Rightarrow> real \<Rightarrow> counter \<Rightarrow> bool" where
  \<comment> \<open>what every statistics triple built from a corpus satisfies\<close>
  "stats_ok N avgdl df = (0 \<le> avgdl \<and> (\<forall>t. 0 \<le> counter_get df t \<and> counter_get df t \<le> N))"

subsection \<open>Top-K selection and reconstruction\<close>

record ranked =
  e_rank :: nat
  e_score :: real
  e_doc :: string

record ranked_i = ranked +
  e_i :: nat

definition sort_rev_by :: "('a \<Rightarrow> 'k::linorder) \<Rightarrow> 'a list \<Rightarrow> 'a list" where
  \<comment> \<open>\<^verbatim>\<open>xs.sort(key=..., reverse=True)\<close>: descending and stable; CPython reverses the list,
     sorts it stably in ascending order and reverses the result\<close>
  "sort_rev_by key xs = rev (sort_key key (rev xs))"

definition slice_to :: "'a list \<Rightarrow> int \<Rightarrow> 'a list" where
  \<comment> \<open>\<^verbatim>\<open>xs[:k]\<close>; a negative \<^verbatim>\<open>k\<close> counts from the end\<close>
  "slice_to xs k =
     (if 0 \<le> k then take (nat k) xs else take (nat (int (length xs) + k)) xs)"

definition sort_order :: "string list \<Rightarrow> real list \<Rightarrow> nat list" where
  \<comment> \<open>\<^verbatim>\<open>idx = list(range(len(docs)))\<close>, then
     \<^verbatim>\<open>idx.sort(key=lambda i: (scores[i], docs[i]), reverse=True)\<close>\<close>
  "sort_order docs scores = sort_rev_by (\<lambda>i. (scores ! i, docs ! i)) [0..<length docs]"

definition topk_docs :: "string list \<Rightarrow> real list \<Rightarrow> int \<Rightarrow> py_error + ranked_i list" where
  \<comment> \<open>the sort key reads \<^verbatim>\<open>scores[i]\<close> for every index of \<^verbatim>\<open>docs\<close>: IndexError when
     \<^verbatim>\<open>scores\<close> is the shorter list\<close>
  "topk_docs docs scores k =
     (if length scores < length docs then Inl IndexError
      else Inr (map (\<lambda>(r, i). \<lparr>e_rank = r + 1, e_score = scores ! i, e_doc = docs ! i, e_i = i\<rparr>)
                  (enumerate 0 (slice_to (sort_order docs scores) k))))"

definition topk_full :: "string list \<Rightarrow> real list \<Rightarrow> int \<Rightarrow> py_error + ranked_i list" where
  \<comment> \<open>\<^verbatim>\<open>topk_full\<close> of \<^verbatim>\<open>bm25_equiv.py\<close>, the same body\<close>
  "topk_full docs scores k =
     (if length scores < length docs then Inl IndexError
      else Inr (map (\<lambda>(r, i). \<lparr>e_rank = r + 1, e_score = scores ! i, e_doc = docs ! i, e_i = i\<rparr>)
                  (enumerate 0 (slice_to (sort_order docs scores) k))))"

type_synonym counts = "string \<rightharpoonup> int"

definition counts_get :: "counts \<Rightarrow> string \<Rightarrow> int" where
  \<comment> \<open>\<^verbatim>\<open>int(counts_map.get(doc, 1))\<close>, for a count map with integer values\<close>
  "counts_get counts_map doc = (case counts_map doc of None \<Rightarrow> 1 | Some c \<Rightarrow> c)"

fun emit :: "nat \<Rightarrow> real \<Rightarrow> string \<Rightarrow> ranked list \<Rightarrow> ranked list" where
  \<comment> \<open>\<^verbatim>\<open>for _ in range(take): out.append({"rank": len(out)+1, "score": ..., "doc": doc})\<close>\<close>
  "emit 0 sc doc out = out"
| "emit (Suc n) sc doc out =
     emit n sc doc (out @ [\<lparr>e_rank = length out + 1, e_score = sc, e_doc = doc\<rparr>])"

fun recon_loop ::
  "string list \<Rightarrow> real list \<Rightarrow> counts \<Rightarrow> int \<Rightarrow> nat list \<Rightarrow> ranked list \<Rightarrow> ranked list" where
  \<comment> \<open>the loop \<^verbatim>\<open>for i in order\<close>; \<^verbatim>\<open>range(take)\<close> is empty for \<^verbatim>\<open>take \<le> 0\<close>\<close>
  "recon_loop unique_docs unique_scores counts_map k [] out = out"
| "recon_loop unique_docs unique_scores counts_map k (i # order) out =
     (if k \<le> int (length out) then out
      else
        let doc = unique_docs ! i;
            c = counts_get counts_map doc;
            take = min c (k - int (length out))
        in recon_loop unique_docs unique_scores counts_map k order
             (emit (nat take) (unique_scores ! i) doc out))"

definition topk_reconstructed ::
  "string list \<Rightarrow> real list \<Rightarrow> counts \<Rightarrow> int \<Rightarrow> py_error + ranked list" where
  \<comment> \<open>the same function in both files\<close>
  "topk_reconstructed unique_docs unique_scores counts_map k =
     (if length unique_scores < length unique_docs then Inl IndexError
      else Inr (recon_loop unique_docs unique_scores counts_map k
                  (sort_order unique_docs unique_scores) []))"

text \<open>The expander in the words of the specification, section 4.5: the unique
  documents come in the order of Step 1, each with its score and its multiplicity; with
  \<open>e\<close> entries emitted so far, a document adds min(c, remaining slots) consecutive
  entries with its score and the next ranks, and the walk stops once K entries are out.\<close>

fun expand_walk :: "(string \<times> real \<times> int) list \<Rightarrow> int \<Rightarrow> nat \<Rightarrow> ranked list" where
  "expand_walk [] k e = []"
| "expand_walk ((doc, sc, c) # rest) k e =
     (if k \<le> int e then []
      else map (\<lambda>j. \<lparr>e_rank = e + j + 1, e_score = sc, e_doc = doc\<rparr>)
             [0..<nat (min c (k - int e))]
           @ expand_walk rest k (e + nat (min c (k - int e))))"

subsection \<open>The positional diff and the locked-statistics run\<close>

record mismatch =
  m_rank :: nat
  full_doc :: string
  full_score :: real
  recon_doc :: string
  recon_score :: real

definition diff_topk :: "ranked_i list \<Rightarrow> ranked list \<Rightarrow> mismatch list" where
  \<comment> \<open>\<^verbatim>\<open>for i in range(min(len(full_top), len(red_top)))\<close>: a record where the documents differ\<close>
  "diff_topk full_top red_top =
     map (\<lambda>(i, a, b). \<lparr>m_rank = i + 1, full_doc = e_doc a, full_score = e_score a,
                        recon_doc = e_doc b, recon_score = e_score b\<rparr>)
       (filter (\<lambda>(i, a, b). e_doc a \<noteq> e_doc b) (enumerate 0 (zip full_top red_top)))"

definition status_pass :: "mismatch list \<Rightarrow> bool" where
  \<comment> \<open>\<^verbatim>\<open>if not mismatches\<close>: the report says PASS\<close>
  "status_pass mismatches = (mismatches = [])"

definition strict_run ::
  "string list \<Rightarrow> string list \<Rightarrow> counts \<Rightarrow> string list \<Rightarrow> int
     \<Rightarrow> py_error + (ranked_i list \<times> ranked list \<times> mismatch list)" where
  \<comment> \<open>\<^verbatim>\<open>main\<close> of \<^verbatim>\<open>bm25_equiv_strict.py\<close> from the loaded documents to the mismatch list:
     the statistics come from FULL alone and score both corpora\<close>
  "strict_run full_docs red_docs counts_map q_terms k =
     (case build_full_stats full_docs of
        (full_toks, dl, N, avgdl, df) \<Rightarrow>
          (case map_err (\<lambda>i. bm25_score_doc (full_toks ! i) q_terms N avgdl df k1_default b_default)
                  [0..<length full_docs] of
             Inl e \<Rightarrow> Inl e
           | Inr full_scores \<Rightarrow>
               (case map_err (\<lambda>d. bm25_score_doc (tokenize d) q_terms N avgdl df k1_default b_default)
                       red_docs of
                  Inl e \<Rightarrow> Inl e
                | Inr red_scores \<Rightarrow>
                    (case topk_docs full_docs full_scores k of
                       Inl e \<Rightarrow> Inl e
                     | Inr full_top \<Rightarrow>
                         (case topk_reconstructed red_docs red_scores counts_map k of
                            Inl e \<Rightarrow> Inl e
                          | Inr red_top \<Rightarrow> Inr (full_top, red_top, diff_topk full_top red_top))))))"

definition load_docs :: "string list \<Rightarrow> string list" where
  \<comment> \<open>\<^verbatim>\<open>[norm_ws_lower(x) for x in lines if x.strip()]\<close>\<close>
  "load_docs lines = map norm_ws_lower (filter (\<lambda>x. strip x \<noteq> []) lines)"

text \<open>The shape \<^const>\<open>sub_ws_of\<close> produces: every whitespace character is a space, and
  no whitespace character follows another. A string is tidy when it has that shape and
  neither starts nor ends with whitespace.\<close>

fun collapsed :: "('c \<Rightarrow> bool) \<Rightarrow> 'c \<Rightarrow> 'c list \<Rightarrow> bool" where
  "collapsed ws sp [] = True"
| "collapsed ws sp [c] = (ws c \<longrightarrow> c = sp)"
| "collapsed ws sp (c # d # cs) =
     ((ws c \<longrightarrow> c = sp \<and> \<not> ws d) \<and> collapsed ws sp (d # cs))"

definition tidy :: "('c \<Rightarrow> bool) \<Rightarrow> 'c \<Rightarrow> 'c list \<Rightarrow> bool" where
  "tidy ws sp u = (collapsed ws sp u \<and> (u = [] \<or> (\<not> ws (hd u) \<and> \<not> ws (last u))))"

section \<open>Normalisation is idempotent\<close>

lemma collapsed_tl: "collapsed ws sp (c # cs) \<Longrightarrow> collapsed ws sp cs"
  by (cases cs) simp_all

lemma collapsed_skip: "\<not> ws c \<Longrightarrow> collapsed ws sp (c # cs) = collapsed ws sp cs"
  by (cases cs) simp_all

lemma collapsed_append_left: "collapsed ws sp (xs @ ys) \<Longrightarrow> collapsed ws sp xs"
proof (induction ws sp xs rule: collapsed.induct)
  case (1 ws sp)
  then show ?case by simp
next
  case (2 ws sp c)
  then show ?case by (cases ys) simp_all
next
  case (3 ws sp c d cs)
  then show ?case by simp
qed

lemma collapsed_append_right: "collapsed ws sp (xs @ ys) \<Longrightarrow> collapsed ws sp ys"
proof (induction xs)
  case Nil
  then show ?case by simp
next
  case (Cons x xs)
  then show ?case by (simp add: collapsed_tl)
qed

lemma collapsed_dropWhile: "collapsed ws sp s \<Longrightarrow> collapsed ws sp (dropWhile P s)"
  using collapsed_append_right [of ws sp "takeWhile P s" "dropWhile P s"] by simp

lemma rstrip_prefix: "rev (dropWhile P (rev s)) @ rev (takeWhile P (rev s)) = s"
proof -
  have "rev (takeWhile P (rev s) @ dropWhile P (rev s)) = s"
    by simp
  then show ?thesis
    by (simp only: rev_append)
qed

lemma collapsed_strip: "collapsed ws sp s \<Longrightarrow> collapsed ws sp (strip_of ws s)"
proof -
  assume "collapsed ws sp s"
  then have c: "collapsed ws sp (dropWhile ws s)"
    by (rule collapsed_dropWhile)
  show ?thesis
    unfolding strip_of_def
    using collapsed_append_left
      [of ws sp "rev (dropWhile ws (rev (dropWhile ws s)))"
          "rev (takeWhile ws (rev (dropWhile ws s)))"]
      c rstrip_prefix [of ws "dropWhile ws s"]
    by simp
qed

lemma collapsed_sub_ws:
  assumes "ws sp"
  shows "collapsed ws sp (sub_ws_of ws sp s)"
proof (induction s rule: length_induct)
  case (1 s)
  show ?case
  proof (cases s)
    case Nil
    then show ?thesis by simp
  next
    case (Cons c cs)
    show ?thesis
    proof (cases "ws c")
      case True
      define r where "r = dropWhile ws cs"
      have "length r < length s"
        by (simp add: r_def Cons length_dropWhile_le less_Suc_eq_le)
      then have ih: "collapsed ws sp (sub_ws_of ws sp r)"
        using "1.IH" by simp
      have hd: "sub_ws_of ws sp r = [] \<or> \<not> ws (hd (sub_ws_of ws sp r))"
      proof (cases r)
        case Nil
        then show ?thesis by simp
      next
        case (Cons d ds)
        have "r \<noteq> []"
          unfolding Cons by simp
        then have "\<not> ws (hd r)"
          unfolding r_def by (rule hd_dropWhile)
        then have "\<not> ws d"
          unfolding Cons by simp
        then show ?thesis
          unfolding Cons by simp
      qed
      have step: "sub_ws_of ws sp s = sp # sub_ws_of ws sp r"
        using True by (simp add: Cons r_def)
      show ?thesis
      proof (cases "sub_ws_of ws sp r")
        case Nil
        then show ?thesis using step assms by simp
      next
        case (Cons d ds)
        then show ?thesis using step ih hd assms by simp
      qed
    next
      case False
      have "length cs < length s"
        by (simp add: Cons)
      then have "collapsed ws sp (sub_ws_of ws sp cs)"
        using "1.IH" by simp
      then show ?thesis
        using False by (simp add: Cons collapsed_skip)
    qed
  qed
qed

lemma sub_ws_collapsed: "collapsed ws sp s \<Longrightarrow> sub_ws_of ws sp s = s"
proof (induction ws sp s rule: collapsed.induct)
  case (1 ws sp)
  then show ?case by simp
next
  case (2 ws sp c)
  then show ?case by simp
next
  case (3 ws sp c d cs)
  then show ?case by auto
qed

lemma dropWhile_no_head: "xs = [] \<or> \<not> P (hd xs) \<Longrightarrow> dropWhile P xs = xs"
  by (cases xs) auto

lemma strip_ends:
  "strip_of ws s = [] \<or> (\<not> ws (hd (strip_of ws s)) \<and> \<not> ws (last (strip_of ws s)))"
proof -
  define w where "w = dropWhile ws s"
  define v where "v = rev (dropWhile ws (rev w))"
  have v: "strip_of ws s = v"
    by (simp add: strip_of_def v_def w_def)
  have pre: "v @ rev (takeWhile ws (rev w)) = w"
    unfolding v_def by (rule rstrip_prefix)
  have w_head: "w = [] \<or> \<not> ws (hd w)"
    unfolding w_def using hd_dropWhile [of ws s] by blast
  have "\<not> ws (hd v) \<and> \<not> ws (last v)" if nonempty: "v \<noteq> []"
  proof -
    obtain a as where Cons: "v = a # as"
      using nonempty by (cases v) auto
    then have "w = a # as @ rev (takeWhile ws (rev w))"
      using pre by simp
    then have "hd w = a" "w \<noteq> []"
      by (metis list.sel(1), metis list.distinct(1))
    then have front: "\<not> ws (hd v)"
      using w_head Cons by simp
    have "rev v = dropWhile ws (rev w)"
      by (simp add: v_def)
    moreover have "rev v \<noteq> []"
      using nonempty by simp
    ultimately have "\<not> ws (hd (rev v))"
      using hd_dropWhile [of ws "rev w"] by simp
    then have "\<not> ws (last v)"
      using nonempty by (simp add: hd_rev)
    then show ?thesis
      using front by simp
  qed
  then show ?thesis
    unfolding v by blast
qed

lemma tidy_strip_sub_ws: "ws sp \<Longrightarrow> tidy ws sp (strip_of ws (sub_ws_of ws sp s))"
  using strip_ends [of ws "sub_ws_of ws sp s"]
  by (simp add: tidy_def collapsed_strip collapsed_sub_ws)

lemma tidy_fixed:
  assumes "tidy ws sp u"
  shows "strip_of ws (sub_ws_of ws sp u) = u"
proof -
  have c: "collapsed ws sp u" and ends: "u = [] \<or> (\<not> ws (hd u) \<and> \<not> ws (last u))"
    using assms by (simp_all add: tidy_def)
  have front: "dropWhile ws u = u"
    using ends by (intro dropWhile_no_head) blast
  have "rev u = [] \<or> \<not> ws (hd (rev u))"
    using ends by (cases "u = []") (simp_all add: hd_rev)
  then have rear: "dropWhile ws (rev u) = rev u"
    by (rule dropWhile_no_head)
  show ?thesis
    by (simp add: sub_ws_collapsed [OF c] strip_of_def front rear)
qed

lemma tidy_no_ws: "\<forall>c\<in>set u. \<not> ws c \<Longrightarrow> tidy ws sp u"
proof (induction u)
  case Nil
  then show ?case by (simp add: tidy_def)
next
  case (Cons a u)
  then have "tidy ws sp u" "\<not> ws a"
    by simp_all
  then show ?case
    using Cons.prems by (cases "u = []") (auto simp: tidy_def collapsed_skip)
qed

lemma tidy_join:
  assumes "ws sp" and w: "w \<noteq> []" "\<forall>c\<in>set w. \<not> ws c" and r: "r \<noteq> []" "tidy ws sp r"
  shows "tidy ws sp (w @ sp # r)"
proof -
  have cr: "collapsed ws sp r" and hr: "\<not> ws (hd r)" and lr: "\<not> ws (last r)"
    using r by (simp_all add: tidy_def)
  obtain d ds where rd: "r = d # ds"
    using r(1) by (cases r) auto
  have "collapsed ws sp (sp # r)"
    using cr hr by (simp add: rd)
  moreover have "collapsed ws sp (v @ t) = collapsed ws sp t" if "\<forall>c\<in>set v. \<not> ws c" for v t
    using that by (induction v) (simp_all add: collapsed_skip)
  ultimately have "collapsed ws sp (w @ sp # r)"
    using w(2) by simp
  moreover have "\<not> ws (hd (w @ sp # r))"
    using w by (cases w) simp_all
  moreover have "\<not> ws (last (w @ sp # r))"
    using lr r(1) by simp
  ultimately show ?thesis
    by (simp add: tidy_def)
qed

lemma tidy_split:
  assumes "tidy ws sp u" and "\<not> (\<forall>c\<in>set u. \<not> ws c)"
  shows "\<exists>w r. u = w @ sp # r \<and> w \<noteq> [] \<and> (\<forall>c\<in>set w. \<not> ws c) \<and> r \<noteq> [] \<and> tidy ws sp r"
proof -
  obtain w c r where u: "u = w @ c # r" and c: "ws c" and w: "\<forall>y\<in>set w. \<not> ws y"
    using assms(2) split_list_first_prop [of u ws] by blast
  have cu: "collapsed ws sp u" and hu: "\<not> ws (hd u)" and lu: "\<not> ws (last u)"
    using assms(1) u by (simp_all add: tidy_def)
  have w_ne: "w \<noteq> []"
    using hu c u by (cases w) auto
  have ccr: "collapsed ws sp (c # r)"
    using cu collapsed_append_right [of ws sp w "c # r"] by (simp add: u)
  have r_ne: "r \<noteq> []"
    using lu c u by (cases r) auto
  then obtain d ds where rd: "r = d # ds"
    by (cases r) auto
  have "c = sp" "\<not> ws d" "collapsed ws sp r"
    using ccr c by (simp_all add: rd)
  moreover have "last r = last u"
    using r_ne by (simp add: u)
  ultimately have "tidy ws sp r"
    using lu by (simp add: tidy_def rd)
  then show ?thesis
    using u \<open>c = sp\<close> w_ne w r_ne by blast
qed

lemma tidy_lower:
  assumes "ws sp" "lower_like ws low"
  shows "tidy ws sp u \<Longrightarrow> tidy ws sp (low u)"
proof (induction u rule: length_induct)
  case (1 u)
  have keep: "\<And>s. \<forall>c\<in>set s. \<not> ws c \<Longrightarrow> \<forall>c\<in>set (low s). \<not> ws c"
    and split: "\<And>xs c ys. ws c \<Longrightarrow> low (xs @ c # ys) = low xs @ c # low ys"
    and ne: "\<And>s. s \<noteq> [] \<Longrightarrow> low s \<noteq> []"
    using assms(2) unfolding lower_like_def by blast+
  show ?case
  proof (cases "\<forall>c\<in>set u. \<not> ws c")
    case True
    then show ?thesis
      by (intro tidy_no_ws keep)
  next
    case False
    then obtain w r where u: "u = w @ sp # r" and w: "w \<noteq> []" "\<forall>c\<in>set w. \<not> ws c"
      and r: "r \<noteq> []" "tidy ws sp r"
      using tidy_split [OF "1.prems"] by blast
    have "length r < length u"
      by (simp add: u)
    then have "tidy ws sp (low r)"
      using "1.IH" r(2) by blast
    then have "tidy ws sp (low w @ sp # low r)"
      using assms(1) w r(1) by (intro tidy_join ne keep)
    then show ?thesis
      by (simp add: u split [OF assms(1)])
  qed
qed

text \<open>
  Claim C9. Normalisation (collapse every run of whitespace to one space, strip leading
  and trailing whitespace, lower-case) is idempotent: normalising a normalised string
  changes nothing, for every string over any alphabet of code points. The whitespace test
  and the lower-casing of the Python runtime are parameters; of the lower-casing the proof
  uses what \<^const>\<open>lower_like\<close> states.
\<close>

theorem norm_ws_lower_idempotent:
  assumes "ws sp" "lower_like ws low"
  shows "norm_ws_lower_of ws sp low (norm_ws_lower_of ws sp low s) = norm_ws_lower_of ws sp low s"
proof -
  define u where "u = strip_of ws (sub_ws_of ws sp s)"
  have idem: "low (low u) = low u"
    using assms(2) unfolding lower_like_def by blast
  have "tidy ws sp u"
    unfolding u_def using assms(1) by (rule tidy_strip_sub_ws)
  then have "tidy ws sp (low u)"
    by (rule tidy_lower [OF assms])
  then have "strip_of ws (sub_ws_of ws sp (low u)) = low u"
    by (rule tidy_fixed)
  then show ?thesis
    by (simp add: norm_ws_lower_of_def u_def [symmetric] idem)
qed

subsection \<open>The instance on code points below 256\<close>

lemma isspace_space: "isspace (CHR '' '')"
  by (simp add: isspace_def)

lemma isspace_lower_char: "isspace (lower_char c) = isspace c"
proof -
  have "of_char (char_of (of_char c + 32 :: nat)) = ((of_char c + 32) mod 256 :: nat)"
    by (rule of_char_of)
  then show ?thesis
    by (auto simp: isspace_def lower_char_def Let_def)
qed

lemma lower_char_ws: "isspace c \<Longrightarrow> lower_char c = c"
  by (auto simp: isspace_def lower_char_def Let_def)

lemma lower_char_idem: "lower_char (lower_char c) = lower_char c"
proof -
  have "of_char (char_of (of_char c + 32 :: nat)) = ((of_char c + 32) mod 256 :: nat)"
    by (rule of_char_of)
  then show ?thesis
    by (auto simp: lower_char_def Let_def)
qed

lemma lower_like_lower: "lower_like isspace lower"
  unfolding lower_like_def
proof (intro conjI allI impI)
  show "lower [] = []"
    by (simp add: lower_def)
  show "lower (lower s) = lower s" for s
    by (simp add: lower_def lower_char_idem)
  show "lower (xs @ c # ys) = lower xs @ c # lower ys" if "isspace c" for xs c ys
    using that by (simp add: lower_def lower_char_ws)
  show "\<forall>c\<in>set (lower s). \<not> isspace c" if "\<forall>c\<in>set s. \<not> isspace c" for s
    using that by (simp add: lower_def isspace_lower_char)
  show "s = []" if "lower s = []" for s
    using that by (simp add: lower_def)
qed

lemma norm_ws_lower_instance:
  "norm_ws_lower s = norm_ws_lower_of isspace (CHR '' '') lower s"
  by (simp add: norm_ws_lower_def norm_ws_lower_of_def strip_def sub_ws_def)

theorem norm_ws_lower_idempotent_witness:
  "isspace (CHR '' '') \<and> lower_like isspace lower
   \<and> norm_ws_lower ''  Cat   DOG '' = ''cat dog''
   \<and> norm_ws_lower (norm_ws_lower ''  Cat   DOG '') = ''cat dog''"
proof -
  have "norm_ws_lower ''  Cat   DOG '' = ''cat dog''"
    by code_simp
  then show ?thesis
    using norm_ws_lower_idempotent [OF isspace_space lower_like_lower, of "''  Cat   DOG ''"]
      isspace_space lower_like_lower
    by (simp add: norm_ws_lower_instance)
qed

lemma tokenize_example: "tokenize ''Cat, dog-7!'' = [''cat'', ''dog'', ''7'']"
  by code_simp

lemma load_docs_example: "load_docs [''  Cat   DOG '', ''   '', ''bird''] = [''cat dog'', ''bird'']"
  by code_simp

section \<open>The scorer computes the formula\<close>

lemma idf_formula_eq: "0 < idf_arg q N df \<Longrightarrow> idf q N df = Inr (idf_formula q N df)"
  by (simp add: idf_def idf_formula_def idf_arg_def Let_def)

lemma idf_undefined: "\<not> 0 < idf_arg q N df \<Longrightarrow> idf q N df = Inl ValueError"
  by (simp add: idf_def)

lemma bm25_denom_eq:
  "bm25_denom f dl avgdl k1 b = real f + k1 * (1 - b + b * len_ratio dl avgdl)"
  by (simp add: bm25_denom_def len_ratio_def)

lemma bm25_term_step:
  assumes "count_list doc q \<noteq> 0" "0 < idf_arg q N df"
  shows "idf_formula q N df * (real (count_list doc q) * (k1 + 1.0)
           / bm25_denom (count_list doc q) (length doc) avgdl k1 b)
         = bm25_term doc N avgdl df k1 b q"
  using assms by (simp add: bm25_term_def bm25_denom_eq Let_def)

lemma bm25_term_zero: "count_list doc q = 0 \<Longrightarrow> bm25_term doc N avgdl df k1 b q = 0"
  by (simp add: bm25_term_def)

lemma bm25_loop_defined:
  "\<forall>q\<in>set qs. term_defined doc N avgdl df k1 b q \<Longrightarrow>
   bm25_loop (count_list doc) (length doc) N avgdl df k1 b qs s
     = Inr (s + sum_list (map (bm25_term doc N avgdl df k1 b) qs))"
proof (induction qs arbitrary: s)
  case Nil
  then show ?case by simp
next
  case (Cons q qs)
  then have rest: "\<forall>q\<in>set qs. term_defined doc N avgdl df k1 b q"
    and here: "term_defined doc N avgdl df k1 b q"
    by simp_all
  show ?case
  proof (cases "count_list doc q = 0")
    case True
    then show ?thesis
      using Cons.IH [OF rest] by (simp add: bm25_term_zero)
  next
    case False
    then have pos: "0 < idf_arg q N df"
      and dn: "bm25_denom (count_list doc q) (length doc) avgdl k1 b \<noteq> 0"
      using here by (simp_all add: term_defined_def)
    show ?thesis
      using False dn Cons.IH [OF rest] bm25_term_step [OF False pos]
      by (simp add: idf_formula_eq [OF pos] Let_def add.assoc)
  qed
qed

lemma bm25_loop_undefined:
  "\<not> (\<forall>q\<in>set qs. term_defined doc N avgdl df k1 b q) \<Longrightarrow>
   \<exists>e. bm25_loop (count_list doc) (length doc) N avgdl df k1 b qs s = Inl e"
proof (induction qs arbitrary: s)
  case Nil
  then show ?case by simp
next
  case (Cons q qs)
  show ?case
  proof (cases "term_defined doc N avgdl df k1 b q")
    case True
    then have rest: "\<not> (\<forall>q\<in>set qs. term_defined doc N avgdl df k1 b q)"
      using Cons.prems by simp
    show ?thesis
    proof (cases "count_list doc q = 0")
      case True
      then show ?thesis using Cons.IH [OF rest] by simp
    next
      case False
      then have pos: "0 < idf_arg q N df"
        and dn: "bm25_denom (count_list doc q) (length doc) avgdl k1 b \<noteq> 0"
        using True by (simp_all add: term_defined_def)
      show ?thesis
        using False dn Cons.IH [OF rest] by (simp add: idf_formula_eq [OF pos] Let_def)
    qed
  next
    case False
    then have nz: "count_list doc q \<noteq> 0"
      and bad: "\<not> 0 < idf_arg q N df \<or> bm25_denom (count_list doc q) (length doc) avgdl k1 b = 0"
      by (auto simp: term_defined_def)
    show ?thesis
    proof (cases "0 < idf_arg q N df")
      case True
      then show ?thesis
        using nz bad by (simp add: idf_formula_eq [OF True] Let_def)
    next
      case False
      then show ?thesis
        using nz by (simp add: idf_undefined [OF False] Let_def)
    qed
  qed
qed

lemma idf_arg_eq:
  "idf_arg q N df = (real_of_int N + 1) / (real_of_int (counter_get df q) + 1 / 2)"
proof -
  have "real_of_int (counter_get df q) + 1 / 2 \<noteq> 0"
  proof
    assume "real_of_int (counter_get df q) + 1 / 2 = 0"
    then have "real_of_int (2 * counter_get df q + 1) = 0"
      by simp
    then have "2 * counter_get df q + 1 = 0"
      by (simp only: of_int_eq_0_iff)
    then show False
      by presburger
  qed
  then show ?thesis
    by (simp add: idf_arg_def Let_def field_simps)
qed

lemma idf_arg_pos: "0 \<le> N \<Longrightarrow> 0 \<le> counter_get df q \<Longrightarrow> 0 < idf_arg q N df"
  by (simp add: idf_arg_eq)

lemma idf_arg_ge1: "0 \<le> counter_get df q \<Longrightarrow> counter_get df q \<le> N \<Longrightarrow> 1 \<le> idf_arg q N df"
  by (simp add: idf_arg_eq)

lemma len_ratio_nonneg: "0 \<le> avgdl \<Longrightarrow> 0 \<le> len_ratio dl avgdl"
  by (simp add: len_ratio_def)

lemma default_offset_pos:
  "0 \<le> avgdl \<Longrightarrow> 0 < k1_default * (1 - b_default + b_default * len_ratio dl avgdl)"
proof -
  assume "0 \<le> avgdl"
  then have "0 \<le> b_default * len_ratio dl avgdl"
    by (simp add: b_default_def len_ratio_nonneg)
  then have "0 < 1 - b_default + b_default * len_ratio dl avgdl"
    by (simp add: b_default_def)
  then show ?thesis
    by (simp add: k1_default_def)
qed

lemma default_denom_pos:
  "0 \<le> avgdl \<Longrightarrow> 0 < bm25_denom f dl avgdl k1_default b_default"
  using default_offset_pos [of avgdl dl] by (simp add: bm25_denom_eq add_nonneg_pos)

lemma sane_defined:
  "0 \<le> N \<Longrightarrow> \<forall>t. 0 \<le> counter_get df t \<Longrightarrow> 0 \<le> avgdl \<Longrightarrow>
   term_defined doc N avgdl df k1_default b_default q"
  using default_denom_pos [of avgdl "count_list doc q" "length doc"]
  by (simp add: term_defined_def idf_arg_pos)

subsection \<open>What the statistics builder returns\<close>

lemma counter_update_get:
  "distinct xs \<Longrightarrow>
   counter_get (counter_update c xs) x = counter_get c x + (if x \<in> set xs then 1 else 0)"
proof (induction xs arbitrary: c)
  case Nil
  then show ?case by (simp add: counter_update_def)
next
  case (Cons a xs)
  define c' where "c' = c(a \<mapsto> counter_get c a + 1)"
  have step: "counter_update c (a # xs) = counter_update c' xs"
    by (simp add: counter_update_def c'_def)
  have c': "counter_get c' x = (if x = a then counter_get c a + 1 else counter_get c x)"
    by (simp add: c'_def counter_get_def)
  have "distinct xs" "a \<notin> set xs"
    using Cons.prems by simp_all
  then show ?case
    unfolding step using Cons.IH [of c'] c' by auto
qed

lemma build_df_fold_get:
  "counter_get (fold (\<lambda>t df. counter_update df (remdups t)) toks c) x
     = counter_get c x + int (length (filter (\<lambda>t. x \<in> set t) toks))"
proof (induction toks arbitrary: c)
  case Nil
  then show ?case by simp
next
  case (Cons t toks)
  show ?case
    by (simp add: Cons.IH counter_update_get)
qed

lemma build_df_get:
  "counter_get (build_df toks) x = int (length (filter (\<lambda>t. x \<in> set t) toks))"
  by (simp add: build_df_def build_df_fold_get) (simp add: counter_get_def)

lemma build_df_bounds:
  "0 \<le> counter_get (build_df toks) x \<and> counter_get (build_df toks) x \<le> int (length toks)"
  by (simp add: build_df_get)

lemma avgdl_nonneg: "0 \<le> (if n \<noteq> 0 then real (sum_list dl) / real_of_int (int n) else 0)"
  by simp

lemma build_full_stats_ok:
  assumes "build_full_stats docs = (toks, dl, N, avgdl, df)"
  shows "toks = map tokenize docs \<and> N = int (length docs) \<and> stats_ok N avgdl df"
proof -
  have toks: "toks = map tokenize docs" and N: "N = int (length docs)"
    and df: "df = build_df (map tokenize docs)"
    and avgdl: "avgdl = (if N \<noteq> 0 then real (sum_list (map length toks)) / real_of_int N else 0)"
    using assms by (auto simp: build_full_stats_def Let_def)
  have "0 \<le> avgdl"
    unfolding avgdl N by simp
  moreover have "0 \<le> counter_get df t \<and> counter_get df t \<le> N" for t
    using build_df_bounds [of "map tokenize docs" t] by (simp add: df N)
  ultimately show ?thesis
    using toks N by (simp add: stats_ok_def)
qed

lemma stats_ok_defined:
  "stats_ok N avgdl df \<Longrightarrow> term_defined doc N avgdl df k1_default b_default q"
proof -
  assume ok: "stats_ok N avgdl df"
  then have "0 \<le> counter_get df q" "counter_get df q \<le> N"
    by (simp_all add: stats_ok_def)
  then have "0 \<le> N"
    by simp
  then show ?thesis
    using ok by (intro sane_defined) (simp_all add: stats_ok_def)
qed

lemma bm25_score_doc_ok:
  "stats_ok N avgdl df \<Longrightarrow>
   bm25_score_doc doc q_terms N avgdl df k1_default b_default
     = Inr (bm25_formula doc q_terms N avgdl df k1_default b_default)"
  using bm25_loop_defined [of q_terms doc N avgdl df k1_default b_default 0]
  by (simp add: bm25_score_doc_def bm25_formula_def stats_ok_defined)

lemma map_err_Inr: "(\<And>x. x \<in> set xs \<Longrightarrow> g x = Inr (h x)) \<Longrightarrow> map_err g xs = Inr (map h xs)"
  by (induction xs) simp_all

lemma map_enumerate_snd: "map (\<lambda>(i, t). h t) (enumerate n xs) = map h xs"
  by (induction xs arbitrary: n) simp_all

lemma bm25_scores_formula:
  "bm25_scores docs q_terms k1_default b_default =
     (case build_full_stats docs of
        (toks, dl, N, avgdl, df) \<Rightarrow>
          Inr (map (\<lambda>d. bm25_formula (tokenize d) q_terms N avgdl df k1_default b_default) docs,
               df, avgdl))"
proof -
  define toks where "toks = map tokenize docs"
  define N where "N = int (length docs)"
  define avgdl where
    "avgdl = (if N \<noteq> 0 then real (sum_list (map length toks)) / real_of_int N else 0)"
  define df where "df = build_df toks"
  have stats: "build_full_stats docs = (toks, map length toks, N, avgdl, df)"
    by (simp add: build_full_stats_def Let_def toks_def N_def avgdl_def df_def)
  have ok: "stats_ok N avgdl df"
    using build_full_stats_ok [OF stats] by blast
  have each: "(\<lambda>(i, t). bm25_loop (count_list t) (map length toks ! i) N avgdl df
                 k1_default b_default q_terms 0.0) x
              = Inr ((\<lambda>(i, t). bm25_formula t q_terms N avgdl df k1_default b_default) x)"
    if "x \<in> set (enumerate 0 toks)" for x
  proof -
    obtain i t where x: "x = (i, t)"
      by (cases x)
    then have "i < length toks" "toks ! i = t"
      using that by (simp_all add: in_set_enumerate_eq)
    then have "map length toks ! i = length t"
      by simp
    then show ?thesis
      using bm25_score_doc_ok [OF ok, of t q_terms]
      by (simp add: x bm25_score_doc_def)
  qed
  have "map_err (\<lambda>(i, t). bm25_loop (count_list t) (map length toks ! i) N avgdl df
                 k1_default b_default q_terms 0.0) (enumerate 0 toks)
        = Inr (map (\<lambda>(i, t). bm25_formula t q_terms N avgdl df k1_default b_default)
                 (enumerate 0 toks))"
    by (rule map_err_Inr) (rule each)
  moreover have "map (\<lambda>(i, t). bm25_formula t q_terms N avgdl df k1_default b_default)
                   (enumerate 0 toks)
                 = map (\<lambda>d. bm25_formula (tokenize d) q_terms N avgdl df k1_default b_default) docs"
    by (simp add: map_enumerate_snd toks_def comp_def)
  ultimately show ?thesis
    unfolding stats
    by (simp add: bm25_scores_def Let_def toks_def [symmetric] N_def [symmetric]
        avgdl_def [symmetric] df_def [symmetric])
qed

text \<open>
  Claim C2. With the defaults k1 = 1.2 and b = 0.75, the scorer returns the sum over the
  query terms, in order and without merging repeated terms, of
  idf(q) * f*(k1+1) / (f + k1*(1 - b + b*(doclen/avgdl))), where f is the frequency of q
  in the document (a term with f = 0 adds nothing), idf(q) is
  ln((N - df[q] + 0.5) / (df[q] + 0.5) + 1.0) with df[q] = 0 for an unseen term, and
  doclen/avgdl is 0 when avgdl is 0. The scorer returns that sum whenever every term of it
  has a value, which is so for every N and df[q] that are not negative and avgdl that is
  not negative; where a term has no value (the logarithm of a number that is not
  positive, a denominator 0) the scorer raises. The scores \<^const>\<open>bm25_scores\<close> gives a
  corpus are that sum against the corpus's own statistics.
\<close>

theorem bm25_score_doc_formula:
  "(if \<forall>q\<in>set q_terms. term_defined doc N avgdl df k1_default b_default q
    then bm25_score_doc doc q_terms N avgdl df k1_default b_default
           = Inr (bm25_formula doc q_terms N avgdl df k1_default b_default)
    else \<exists>e. bm25_score_doc doc q_terms N avgdl df k1_default b_default = Inl e)
   \<and> (0 \<le> N \<and> (\<forall>t. 0 \<le> counter_get df t) \<and> 0 \<le> avgdl
        \<longrightarrow> (\<forall>q\<in>set q_terms. term_defined doc N avgdl df k1_default b_default q))
   \<and> bm25_scores docs q_terms k1_default b_default =
       (case build_full_stats docs of
          (toks, dl, N', avgdl', df') \<Rightarrow>
            Inr (map (\<lambda>d. bm25_formula (tokenize d) q_terms N' avgdl' df' k1_default b_default)
                   docs, df', avgdl'))"
proof (intro conjI)
  show "if \<forall>q\<in>set q_terms. term_defined doc N avgdl df k1_default b_default q
    then bm25_score_doc doc q_terms N avgdl df k1_default b_default
           = Inr (bm25_formula doc q_terms N avgdl df k1_default b_default)
    else \<exists>e. bm25_score_doc doc q_terms N avgdl df k1_default b_default = Inl e"
    using bm25_loop_defined [of q_terms doc N avgdl df k1_default b_default 0]
      bm25_loop_undefined [of q_terms doc N avgdl df k1_default b_default 0]
    by (simp add: bm25_score_doc_def bm25_formula_def)
  show "0 \<le> N \<and> (\<forall>t. 0 \<le> counter_get df t) \<and> 0 \<le> avgdl
        \<longrightarrow> (\<forall>q\<in>set q_terms. term_defined doc N avgdl df k1_default b_default q)"
    by (simp add: sane_defined)
  show "bm25_scores docs q_terms k1_default b_default =
       (case build_full_stats docs of
          (toks, dl, N', avgdl', df') \<Rightarrow>
            Inr (map (\<lambda>d. bm25_formula (tokenize d) q_terms N' avgdl' df' k1_default b_default)
                   docs, df', avgdl'))"
    by (rule bm25_scores_formula)
qed

theorem bm25_score_doc_formula_witness:
  "bm25_score_doc [''cat'', ''dog''] [''cat'', ''cat''] 3 (5 / 3) [''cat'' \<mapsto> 2]
     k1_default b_default
   = Inr (ln (8 / 5) * (110 / 119) + ln (8 / 5) * (110 / 119))"
proof -
  have d: "\<forall>q\<in>set [''cat'', ''cat''].
             term_defined [''cat'', ''dog''] 3 (5 / 3) [''cat'' \<mapsto> 2] k1_default b_default q"
    by (simp add: term_defined_def idf_arg_def bm25_denom_def counter_get_def
        k1_default_def b_default_def)
  have "bm25_formula [''cat'', ''dog''] [''cat'', ''cat''] 3 (5 / 3) [''cat'' \<mapsto> 2]
          k1_default b_default
        = ln (8 / 5) * (110 / 119) + ln (8 / 5) * (110 / 119)"
    by (simp add: bm25_formula_def bm25_term_def idf_formula_def len_ratio_def counter_get_def
        k1_default_def b_default_def)
  then show ?thesis
    using d bm25_score_doc_formula
      [of "[''cat'', ''cat'']" "[''cat'', ''dog'']" 3 "5 / 3" "[''cat'' \<mapsto> 2]" "[]"]
    by simp
qed

section \<open>The sign of the score\<close>

lemma idf_formula_ln: "idf_formula q N df = ln (idf_arg q N df)"
  by (simp add: idf_formula_def idf_arg_def Let_def)

lemma idf_formula_nonneg: "stats_ok N avgdl df \<Longrightarrow> 0 \<le> idf_formula q N df"
  using idf_arg_ge1 [of df q N] by (simp add: idf_formula_ln stats_ok_def)

lemma bm25_term_unfold:
  "bm25_term doc N avgdl df k1_default b_default q =
     (if count_list doc q = 0 then 0
      else idf_formula q N df *
             (real (count_list doc q) * (22 / 10)
                / (real (count_list doc q)
                    + k1_default * (1 - b_default + b_default * len_ratio (length doc) avgdl))))"
  by (simp add: bm25_term_def Let_def k1_default_def)

lemma bm25_term_nonneg:
  assumes "stats_ok N avgdl df"
  shows "0 \<le> bm25_term doc N avgdl df k1_default b_default q"
proof (cases "count_list doc q = 0")
  case True
  then show ?thesis by (simp add: bm25_term_zero)
next
  case False
  define x where
    "x = real (count_list doc q) * (22 / 10)
           / (real (count_list doc q)
               + k1_default * (1 - b_default + b_default * len_ratio (length doc) avgdl))"
  have "0 \<le> avgdl"
    using assms by (simp add: stats_ok_def)
  then have "0 < k1_default * (1 - b_default + b_default * len_ratio (length doc) avgdl)"
    by (rule default_offset_pos)
  then have "0 \<le> x"
    unfolding x_def by simp
  then have "0 \<le> idf_formula q N df * x"
    using idf_formula_nonneg [OF assms, of q] by (rule mult_nonneg_nonneg [rotated])
  moreover have "bm25_term doc N avgdl df k1_default b_default q = idf_formula q N df * x"
    using False unfolding x_def by (simp only: bm25_term_unfold if_False)
  ultimately show ?thesis
    by simp
qed

text \<open>
  Claim C8. For every document token sequence, query term list and statistics with
  0 \<le> df[q] \<le> N for every term, the scorer returns a score and the score is not
  negative; it is exactly 0 when no query term occurs in the document. The average length
  in a statistics triple is a mean of token counts: the first part takes it to be not
  negative, the second part holds for any statistics, and the third part shows that every
  triple the statistics builder returns has 0 \<le> df[q] \<le> N and avgdl \<ge> 0, so that
  every score computed against statistics built from a corpus is not negative.
\<close>

theorem bm25_score_nonneg:
  "(stats_ok N avgdl df \<longrightarrow>
      (\<exists>s. bm25_score_doc doc q_terms N avgdl df k1_default b_default = Inr s \<and> 0 \<le> s))
   \<and> ((\<forall>q\<in>set q_terms. count_list doc q = 0) \<longrightarrow>
        bm25_score_doc doc q_terms N avgdl df k1_default b_default = Inr 0)
   \<and> (case build_full_stats docs of
         (toks, dl, N', avgdl', df') \<Rightarrow>
           (\<forall>t. 0 \<le> counter_get df' t \<and> counter_get df' t \<le> N') \<and> 0 \<le> avgdl'
           \<and> (\<exists>s. bm25_score_doc doc q_terms N' avgdl' df' k1_default b_default = Inr s
                  \<and> 0 \<le> s))"
proof -
  have nonneg: "\<exists>s. bm25_score_doc doc q_terms N avgdl df k1_default b_default = Inr s \<and> 0 \<le> s"
    if ok: "stats_ok N avgdl df" for N avgdl df
  proof -
    have "0 \<le> bm25_formula doc q_terms N avgdl df k1_default b_default"
      unfolding bm25_formula_def
      by (rule sum_list_nonneg) (auto simp: bm25_term_nonneg [OF ok])
    then show ?thesis
      by (simp add: bm25_score_doc_ok [OF ok])
  qed
  have zero: "bm25_score_doc doc q_terms N avgdl df k1_default b_default = Inr 0"
    if none: "\<forall>q\<in>set q_terms. count_list doc q = 0"
  proof -
    have "\<forall>q\<in>set q_terms. term_defined doc N avgdl df k1_default b_default q"
      using none by (simp add: term_defined_def)
    then have "bm25_score_doc doc q_terms N avgdl df k1_default b_default
                 = Inr (sum_list (map (bm25_term doc N avgdl df k1_default b_default) q_terms))"
      using bm25_loop_defined [of q_terms doc N avgdl df k1_default b_default 0]
      by (simp add: bm25_score_doc_def)
    moreover have "map (bm25_term doc N avgdl df k1_default b_default) q_terms
                     = map (\<lambda>q. 0) q_terms"
      using none by (simp add: bm25_term_zero)
    ultimately show ?thesis
      by simp
  qed
  have built: "case build_full_stats docs of
         (toks, dl, N', avgdl', df') \<Rightarrow>
           (\<forall>t. 0 \<le> counter_get df' t \<and> counter_get df' t \<le> N') \<and> 0 \<le> avgdl'
           \<and> (\<exists>s. bm25_score_doc doc q_terms N' avgdl' df' k1_default b_default = Inr s
                  \<and> 0 \<le> s)"
  proof -
    obtain toks dl N' avgdl' df'
      where st: "build_full_stats docs = (toks, dl, N', avgdl', df')"
      by (cases "build_full_stats docs")
    have ok: "stats_ok N' avgdl' df'"
      using build_full_stats_ok [OF st] by blast
    then show ?thesis
      using nonneg [OF ok] by (simp add: st stats_ok_def)
  qed
  show ?thesis
    using nonneg zero built by blast
qed

theorem bm25_score_nonneg_witness:
  "stats_ok 3 (5 / 3) [''cat'' \<mapsto> 2]
   \<and> (\<exists>s. bm25_score_doc [''cat'', ''dog''] [''cat''] 3 (5 / 3) [''cat'' \<mapsto> 2]
             k1_default b_default = Inr s \<and> 0 \<le> s)
   \<and> bm25_score_doc [''cat'', ''dog''] [''bird''] 3 (5 / 3) [''cat'' \<mapsto> 2]
        k1_default b_default = Inr 0
   \<and> (case build_full_stats [''cat dog'', ''cat dog'', ''bird''] of
         (toks, dl, N, avgdl, df) \<Rightarrow>
           \<exists>s. bm25_score_doc [''cat'', ''dog''] [''cat''] N avgdl df k1_default b_default = Inr s
                \<and> 0 \<le> s)"
proof -
  have ok: "stats_ok 3 (5 / 3) [''cat'' \<mapsto> 2]"
    by (simp add: stats_ok_def counter_get_def)
  have none: "\<forall>q\<in>set [''bird'']. count_list [''cat'', ''dog''] q = 0"
    by simp
  have "case build_full_stats [''cat dog'', ''cat dog'', ''bird''] of
         (toks, dl, N, avgdl, df) \<Rightarrow>
           \<exists>s. bm25_score_doc [''cat'', ''dog''] [''cat''] N avgdl df k1_default b_default = Inr s
                \<and> 0 \<le> s"
    using bm25_score_nonneg [of 3 "5 / 3" "[''cat'' \<mapsto> 2]" "[''cat'', ''dog'']" "[''cat'']"
        "[''cat dog'', ''cat dog'', ''bird'']"]
    by (auto split: prod.splits)
  then show ?thesis
    using ok none
      bm25_score_nonneg [of 3 "5 / 3" "[''cat'' \<mapsto> 2]" "[''cat'', ''dog'']" "[''cat'']" "[]"]
      bm25_score_nonneg [of 3 "5 / 3" "[''cat'' \<mapsto> 2]" "[''cat'', ''dog'']" "[''bird'']" "[]"]
    by blast
qed

subsection \<open>Scoring against the statistics of an empty corpus\<close>

lemma build_full_stats_empty: "build_full_stats [] = ([], [], 0, 0, Map.empty)"
  by (simp add: build_full_stats_def build_df_def)

lemma stats_ok_empty: "stats_ok 0 0 Map.empty"
  by (simp add: stats_ok_def counter_get_def)

lemma bm25_term_empty:
  "bm25_term doc 0 0 Map.empty k1_default b_default q = empty_stats_term doc q"
  by (simp add: bm25_term_def empty_stats_term_def idf_formula_def len_ratio_def counter_get_def
      k1_default_def b_default_def Let_def)

lemma bm25_term_empty_fun:
  "bm25_term doc 0 0 Map.empty k1_default b_default = empty_stats_term doc"
  by (rule ext) (rule bm25_term_empty)

lemma empty_stats_term_sign:
  "0 \<le> empty_stats_term doc q \<and> (empty_stats_term doc q = 0 \<longleftrightarrow> count_list doc q = 0)"
proof (cases "count_list doc q = 0")
  case True
  then show ?thesis by (simp add: empty_stats_term_def)
next
  case False
  then have "0 < real (count_list doc q) * (22 / 10) / (real (count_list doc q) + 3 / 10)"
    by (simp add: add_pos_pos)
  moreover have "0 < ln (2::real)"
    by simp
  ultimately have "0 < ln 2 * (real (count_list doc q) * (22 / 10)
                      / (real (count_list doc q) + 3 / 10))"
    by (rule mult_pos_pos [rotated])
  then show ?thesis
    using False by (simp add: empty_stats_term_def)
qed

text \<open>
  Claim C6, amended. When the corpus from which statistics are built is empty, N is 0,
  avgdl is 0.0 and df is empty; a document scored against those statistics gets, for
  every query term occurring f > 0 times in it, ln 2 * f * 2.2 / (f + 0.3), so its score
  is 0 exactly when no query term occurs in it.
\<close>

theorem empty_corpus_scores:
  "build_full_stats [] = ([], [], 0, 0, Map.empty)
   \<and> bm25_score_doc doc q_terms 0 0 Map.empty k1_default b_default
       = Inr (sum_list (map (empty_stats_term doc) q_terms))
   \<and> (bm25_score_doc doc q_terms 0 0 Map.empty k1_default b_default = Inr 0
        \<longleftrightarrow> (\<forall>q\<in>set q_terms. count_list doc q = 0))"
proof -
  have score: "bm25_score_doc doc q_terms 0 0 Map.empty k1_default b_default
                 = Inr (sum_list (map (empty_stats_term doc) q_terms))"
    using bm25_score_doc_ok [OF stats_ok_empty, of doc q_terms]
    by (simp add: bm25_formula_def bm25_term_empty_fun)
  have "sum_list (map (empty_stats_term doc) q_terms) = 0
          \<longleftrightarrow> (\<forall>x\<in>set (map (empty_stats_term doc) q_terms). x = 0)"
    by (rule sum_list_nonneg_eq_0_iff) (auto simp: empty_stats_term_sign)
  then have "sum_list (map (empty_stats_term doc) q_terms) = 0
          \<longleftrightarrow> (\<forall>q\<in>set q_terms. count_list doc q = 0)"
    by (simp add: empty_stats_term_sign)
  then show ?thesis
    using score build_full_stats_empty by simp
qed

theorem empty_corpus_scores_witness:
  "bm25_score_doc [''cat'', ''dog''] [''bird'', ''fish''] 0 0 Map.empty k1_default b_default
     = Inr 0
   \<and> bm25_score_doc [''cat'', ''dog''] [''bird'', ''cat''] 0 0 Map.empty k1_default b_default
       \<noteq> Inr 0"
proof -
  have a: "\<forall>q\<in>set [''bird'', ''fish'']. count_list [''cat'', ''dog''] q = 0"
    by simp
  have b: "\<not> (\<forall>q\<in>set [''bird'', ''cat'']. count_list [''cat'', ''dog''] q = 0)"
    by simp
  show ?thesis
    using a b empty_corpus_scores [of "[''cat'', ''dog'']" "[''bird'', ''fish'']"]
      empty_corpus_scores [of "[''cat'', ''dog'']" "[''bird'', ''cat'']"]
    by blast
qed

text \<open>The claim as stated gives every document the score 0: against the statistics of
  the empty corpus a document that holds the query term scores ln 2 * 2.2 / 1.3.\<close>

theorem empty_corpus_positive_counterexample:
  "build_full_stats [] = ([], [], 0, 0, Map.empty)
   \<and> bm25_score_doc [''a''] [''a''] 0 0 Map.empty k1_default b_default = Inr (ln 2 * (22 / 13))
   \<and> (0::real) < ln 2 * (22 / 13)"
proof -
  have "bm25_score_doc [''a''] [''a''] 0 0 Map.empty k1_default b_default
          = Inr (bm25_formula [''a''] [''a''] 0 0 Map.empty k1_default b_default)"
    by (rule bm25_score_doc_ok [OF stats_ok_empty])
  moreover have "bm25_formula [''a''] [''a''] 0 0 Map.empty k1_default b_default
                   = ln 2 * (22 / 13)"
    by (simp add: bm25_formula_def bm25_term_empty_fun empty_stats_term_def)
  ultimately show ?thesis
    using build_full_stats_empty by simp
qed

section \<open>The top-K selector\<close>

subsection \<open>The descending stable sort\<close>

lemma mset_sort_rev_by: "mset (sort_rev_by key xs) = mset xs"
  by (simp add: sort_rev_by_def)

lemma set_sort_rev_by: "set (sort_rev_by key xs) = set xs"
  by (simp add: sort_rev_by_def)

lemma length_sort_rev_by: "length (sort_rev_by key xs) = length xs"
  by (simp add: sort_rev_by_def)

lemma distinct_sort_rev_by: "distinct (sort_rev_by key xs) = distinct xs"
  by (simp add: sort_rev_by_def)

lemma sorted_sort_rev_by: "sorted_wrt (\<lambda>x y. key y \<le> key x) (sort_rev_by key xs)"
proof -
  have "sorted_wrt (\<lambda>x y. key x \<le> key y) (sort_key key (rev xs))"
    using sorted_sort_key [of key "rev xs"] by (simp add: sorted_wrt_map)
  then show ?thesis
    by (simp add: sort_rev_by_def sorted_wrt_rev)
qed

lemma insort_key_map: "map f (insort_key (\<lambda>x. g (f x)) x ys) = insort_key g (f x) (map f ys)"
  by (induction ys) simp_all

lemma sort_key_map: "map f (sort_key (\<lambda>x. g (f x)) xs) = sort_key g (map f xs)"
  by (induction xs) (simp_all add: insort_key_map)

lemma sort_rev_by_map: "map f (sort_rev_by (\<lambda>x. g (f x)) xs) = sort_rev_by g (map f xs)"
  by (simp add: sort_rev_by_def rev_map [symmetric] sort_key_map)

lemma filter_sort_rev_by: "filter P (sort_rev_by key xs) = sort_rev_by key (filter P xs)"
  by (simp add: sort_rev_by_def filter_sort rev_filter [symmetric])

lemma sort_order_props:
  "length (sort_order docs scores) = length docs
   \<and> set (sort_order docs scores) = {0..<length docs}
   \<and> distinct (sort_order docs scores)
   \<and> sorted_wrt (\<lambda>i j. (scores ! j, docs ! j) \<le> (scores ! i, docs ! i)) (sort_order docs scores)"
  unfolding sort_order_def
  using sorted_sort_rev_by [of "\<lambda>i. (scores ! i, docs ! i)" "[0..<length docs]"]
  by (simp add: length_sort_rev_by set_sort_rev_by distinct_sort_rev_by)

lemma zip_nth_upt: "length xs = length ys \<Longrightarrow> map (\<lambda>i. (xs ! i, ys ! i)) [0..<length ys] = zip xs ys"
  by (rule nth_equalityI) simp_all

lemma sort_order_pairs:
  "length scores = length docs \<Longrightarrow>
   map (\<lambda>i. (scores ! i, docs ! i)) (sort_order docs scores) = sort_rev_by (\<lambda>p. p) (zip scores docs)"
  using sort_rev_by_map [of "\<lambda>i. (scores ! i, docs ! i)" "\<lambda>p. p" "[0..<length docs]"]
  by (simp add: sort_order_def zip_nth_upt)

subsection \<open>The entries of the top-K selector\<close>

lemma slice_to_nonneg: "0 \<le> k \<Longrightarrow> slice_to xs k = take (nat k) xs"
  by (simp add: slice_to_def)

lemma topk_docs_entries:
  assumes "length scores = length docs" "0 \<le> k"
  shows "\<exists>out. topk_docs docs scores k = Inr out
           \<and> length out = min (nat k) (length docs)
           \<and> (\<forall>j<length out.
                out ! j = \<lparr>e_rank = j + 1, e_score = scores ! (sort_order docs scores ! j),
                           e_doc = docs ! (sort_order docs scores ! j),
                           e_i = sort_order docs scores ! j\<rparr>)"
proof -
  define idx where "idx = sort_order docs scores"
  define out where
    "out = map (\<lambda>(r, i). \<lparr>e_rank = r + 1, e_score = scores ! i, e_doc = docs ! i, e_i = i\<rparr>)
             (enumerate 0 (take (nat k) idx))"
  have len_idx: "length idx = length docs"
    by (simp add: idx_def sort_order_props)
  have "topk_docs docs scores k = Inr out"
    using assms by (simp add: topk_docs_def out_def idx_def slice_to_nonneg)
  moreover have len: "length out = min (nat k) (length docs)"
    by (simp add: out_def len_idx min.commute)
  moreover have "out ! j = \<lparr>e_rank = j + 1, e_score = scores ! (idx ! j),
                             e_doc = docs ! (idx ! j), e_i = idx ! j\<rparr>" if "j < length out" for j
  proof -
    have "j < length (take (nat k) idx)"
      using that by (simp add: out_def)
    then show ?thesis
      by (simp add: out_def nth_enumerate_eq)
  qed
  ultimately show ?thesis
    unfolding idx_def by blast
qed

lemma pair_le_iff:
  fixes s s' :: real and d d' :: string
  shows "(s, d) \<le> (s', d') \<longleftrightarrow> s < s' \<or> (s = s' \<and> d \<le> d')"
  by auto

lemma sort_order_nth_le:
  assumes "a < b" "b < length docs"
  shows "(scores ! (sort_order docs scores ! b), docs ! (sort_order docs scores ! b))
           \<le> (scores ! (sort_order docs scores ! a), docs ! (sort_order docs scores ! a))"
proof -
  have "sorted_wrt (\<lambda>i j. (scores ! j, docs ! j) \<le> (scores ! i, docs ! i)) (sort_order docs scores)"
    and "length (sort_order docs scores) = length docs"
    using sort_order_props [of docs scores] by blast+
  then show ?thesis
    using assms by (simp only: sorted_wrt_iff_nth_less)
qed

text \<open>
  Claim C3, amended. For every document list, parallel score list and k \<ge> 0, the top-K
  selector returns a ranked list of length min(k, len(documents)), made of distinct
  positions of the input, ordered by score descending with ties broken by document string
  descending, no position left out ranking above an entry; ranks are 1-based in final
  order and no two entries share a rank; of two entries with equal score, the one with
  the greater document string has the smaller rank.
\<close>

theorem topk_docs_ranked:
  assumes "length scores = length docs" "0 \<le> k"
  shows "\<exists>out. topk_docs docs scores k = Inr out
     \<and> topk_full docs scores k = Inr out
     \<and> length out = min (nat k) (length docs)
     \<and> (\<forall>j<length out. e_rank (out ! j) = j + 1)
     \<and> distinct (map e_rank out)
     \<and> (\<forall>j<length out. e_i (out ! j) < length docs
            \<and> e_score (out ! j) = scores ! e_i (out ! j)
            \<and> e_doc (out ! j) = docs ! e_i (out ! j))
     \<and> distinct (map e_i out)
     \<and> (\<forall>a b. a < b \<and> b < length out \<longrightarrow>
            e_score (out ! b) < e_score (out ! a)
            \<or> (e_score (out ! b) = e_score (out ! a) \<and> e_doc (out ! b) \<le> e_doc (out ! a)))
     \<and> (\<forall>i<length docs. i \<notin> e_i ` set out \<longrightarrow>
            (\<forall>x\<in>set out. scores ! i < e_score x \<or> (scores ! i = e_score x \<and> docs ! i \<le> e_doc x)))
     \<and> (\<forall>x\<in>set out. \<forall>y\<in>set out.
            e_score x = e_score y \<and> e_doc y < e_doc x \<longrightarrow> e_rank x < e_rank y)"
proof -
  define idx where "idx = sort_order docs scores"
  obtain out where run: "topk_docs docs scores k = Inr out"
    and len: "length out = min (nat k) (length docs)"
    and nth: "\<And>j. j < length out \<Longrightarrow>
                out ! j = \<lparr>e_rank = j + 1, e_score = scores ! (idx ! j),
                           e_doc = docs ! (idx ! j), e_i = idx ! j\<rparr>"
    using topk_docs_entries [OF assms] unfolding idx_def by blast
  have len_idx: "length idx = length docs" and set_idx: "set idx = {0..<length docs}"
    and dist_idx: "distinct idx"
    by (simp_all add: idx_def sort_order_props)
  have le: "length out \<le> length docs"
    using len by simp
  have ord: "scores ! (idx ! b) < scores ! (idx ! a)
               \<or> (scores ! (idx ! b) = scores ! (idx ! a) \<and> docs ! (idx ! b) \<le> docs ! (idx ! a))"
    if "a < b" "b < length docs" for a b
    using sort_order_nth_le [OF that, of scores] by (simp only: idx_def [symmetric] pair_le_iff)
  have full: "topk_full docs scores k = Inr out"
    using run by (simp add: topk_full_def topk_docs_def)
  have ranks: "\<forall>j<length out. e_rank (out ! j) = j + 1"
    by (simp add: nth)
  have "map e_rank out = map Suc [0..<length out]"
    by (rule nth_equalityI) (simp_all add: nth)
  then have dist_rank: "distinct (map e_rank out)"
    by (simp add: distinct_map)
  have from_input: "\<forall>j<length out. e_i (out ! j) < length docs
            \<and> e_score (out ! j) = scores ! e_i (out ! j)
            \<and> e_doc (out ! j) = docs ! e_i (out ! j)"
  proof (intro allI impI)
    fix j assume j: "j < length out"
    then have "idx ! j \<in> set idx"
      using le len_idx by simp
    then have "idx ! j < length docs"
      using set_idx by simp
    then show "e_i (out ! j) < length docs
            \<and> e_score (out ! j) = scores ! e_i (out ! j)
            \<and> e_doc (out ! j) = docs ! e_i (out ! j)"
      by (simp add: nth [OF j])
  qed
  have ei: "map e_i out = take (length out) idx"
    by (rule nth_equalityI) (use le len_idx in \<open>simp_all add: nth\<close>)
  then have dist_i: "distinct (map e_i out)"
    using dist_idx by simp
  have sorted: "\<forall>a b. a < b \<and> b < length out \<longrightarrow>
            e_score (out ! b) < e_score (out ! a)
            \<or> (e_score (out ! b) = e_score (out ! a) \<and> e_doc (out ! b) \<le> e_doc (out ! a))"
  proof (intro allI impI)
    fix a b assume ab: "a < b \<and> b < length out"
    then have "a < length out" "b < length out" "b < length docs"
      using le by simp_all
    then show "e_score (out ! b) < e_score (out ! a)
            \<or> (e_score (out ! b) = e_score (out ! a) \<and> e_doc (out ! b) \<le> e_doc (out ! a))"
      using ord [of a b] ab by (simp add: nth)
  qed
  have top: "\<forall>i<length docs. i \<notin> e_i ` set out \<longrightarrow>
            (\<forall>x\<in>set out. scores ! i < e_score x \<or> (scores ! i = e_score x \<and> docs ! i \<le> e_doc x))"
  proof (intro allI impI ballI)
    fix i x assume i: "i < length docs" and out_i: "i \<notin> e_i ` set out" and x: "x \<in> set out"
    from i obtain m where m: "m < length docs" "idx ! m = i"
      using set_idx len_idx by (metis atLeastLessThan_iff in_set_conv_nth zero_le)
    from x obtain j where j: "j < length out" "out ! j = x"
      by (auto simp: in_set_conv_nth)
    have "\<not> m < length out"
    proof
      assume in_out: "m < length out"
      then have "e_i (out ! m) = i"
        using m by (simp add: nth)
      moreover have "out ! m \<in> set out"
        using in_out by (rule nth_mem)
      ultimately show False
        using out_i by force
    qed
    then have "j < m"
      using j by simp
    then show "scores ! i < e_score x \<or> (scores ! i = e_score x \<and> docs ! i \<le> e_doc x)"
      using ord [of j m] m j nth [of j] by auto
  qed
  have pairs: "\<forall>x\<in>set out. \<forall>y\<in>set out.
            e_score x = e_score y \<and> e_doc y < e_doc x \<longrightarrow> e_rank x < e_rank y"
  proof (intro ballI impI)
    fix x y assume x: "x \<in> set out" and y: "y \<in> set out"
      and tie: "e_score x = e_score y \<and> e_doc y < e_doc x"
    from x obtain a where a: "a < length out" "out ! a = x"
      by (auto simp: in_set_conv_nth)
    from y obtain b where b: "b < length out" "out ! b = y"
      by (auto simp: in_set_conv_nth)
    have "a \<noteq> b"
      using a b tie by auto
    moreover have "\<not> b < a"
    proof
      assume "b < a"
      then have "e_score (out ! a) < e_score (out ! b)
            \<or> (e_score (out ! a) = e_score (out ! b) \<and> e_doc (out ! a) \<le> e_doc (out ! b))"
        using sorted a by blast
      then show False
        using a b tie by auto
    qed
    ultimately have "a < b"
      by simp
    then show "e_rank x < e_rank y"
      using ranks a b by auto
  qed
  show ?thesis
    using run full len ranks dist_rank from_input dist_i sorted top pairs by blast
qed

theorem topk_docs_ranked_witness:
  "length [1, 1, 0 :: real] = length [''b'', ''a'', ''c'']
   \<and> (0::int) \<le> 2
   \<and> topk_docs [''b'', ''a'', ''c''] [1, 1, 0] 2
       = Inr [\<lparr>e_rank = 1, e_score = 1, e_doc = ''b'', e_i = 0\<rparr>,
              \<lparr>e_rank = 2, e_score = 1, e_doc = ''a'', e_i = 1\<rparr>]
   \<and> (\<exists>out. topk_docs [''b'', ''a'', ''c''] [1, 1, 0] 2 = Inr out
         \<and> length out = min (nat 2) (length [''b'', ''a'', ''c''])
         \<and> distinct (map e_rank out))"
proof -
  have len: "length [1, 1, 0 :: real] = length [''b'', ''a'', ''c'']"
    by simp
  have k: "(0::int) \<le> 2"
    by simp
  have run: "topk_docs [''b'', ''a'', ''c''] [1, 1, 0] 2
       = Inr [\<lparr>e_rank = 1, e_score = 1, e_doc = ''b'', e_i = 0\<rparr>,
              \<lparr>e_rank = 2, e_score = 1, e_doc = ''a'', e_i = 1\<rparr>]"
    by (simp add: topk_docs_def sort_order_def sort_rev_by_def slice_to_def upt_rec
        numeral_2_eq_2 numeral_3_eq_3)
  show ?thesis
    using len k run topk_docs_ranked [OF len k] by blast
qed

text \<open>The claim as stated covers a negative k: \<^verbatim>\<open>idx[:k]\<close> then drops the last \<open>-k\<close>
  positions, so the list is not of length min(k, len(documents)).\<close>

theorem topk_docs_negative_k_counterexample:
  "topk_docs [''a'', ''b''] [0, 0] (- 1)
     = Inr [\<lparr>e_rank = 1, e_score = 0, e_doc = ''b'', e_i = 1\<rparr>]
   \<and> int (length [\<lparr>e_rank = 1, e_score = 0, e_doc = ''b'', e_i = 1\<rparr>])
       \<noteq> min (- 1) (int (length [''a'', ''b'']))"
  by (simp add: topk_docs_def sort_order_def sort_rev_by_def slice_to_def upt_rec
      numeral_2_eq_2)

section \<open>The reconstruction expander\<close>

subsection \<open>The expander's loop against the walk of the specification\<close>

lemma upt_Suc_shift: "[0..<Suc n] = 0 # map Suc [0..<n]"
  by (simp add: upt_conv_Cons map_Suc_upt del: upt_Suc)

lemma emit_eq:
  "emit n sc doc out
     = out @ map (\<lambda>j. \<lparr>e_rank = length out + j + 1, e_score = sc, e_doc = doc\<rparr>) [0..<n]"
proof (induction n arbitrary: out)
  case 0
  then show ?case by simp
next
  case (Suc n)
  have "emit (Suc n) sc doc out
          = emit n sc doc (out @ [\<lparr>e_rank = length out + 1, e_score = sc, e_doc = doc\<rparr>])"
    by simp
  also have "\<dots> = (out @ [\<lparr>e_rank = length out + 1, e_score = sc, e_doc = doc\<rparr>])
                 @ map (\<lambda>j. \<lparr>e_rank = length out + Suc j + 1, e_score = sc, e_doc = doc\<rparr>) [0..<n]"
    by (simp add: Suc.IH)
  also have "\<dots> = out @ map (\<lambda>j. \<lparr>e_rank = length out + j + 1, e_score = sc, e_doc = doc\<rparr>)
                         (0 # map Suc [0..<n])"
    by (simp add: comp_def)
  finally show ?case
    by (simp only: upt_Suc_shift)
qed

lemma length_emit: "length (emit n sc doc out) = length out + n"
  by (simp add: emit_eq)

lemma recon_loop_walk:
  "recon_loop docs scores cm k ord out
     = out @ expand_walk (map (\<lambda>i. (docs ! i, scores ! i, counts_get cm (docs ! i))) ord)
               k (length out)"
proof (induction ord arbitrary: out)
  case Nil
  then show ?case by simp
next
  case (Cons i ord)
  show ?case
  proof (cases "k \<le> int (length out)")
    case True
    then show ?thesis by simp
  next
    case False
    define n where "n = nat (min (counts_get cm (docs ! i)) (k - int (length out)))"
    have "recon_loop docs scores cm k (i # ord) out
            = recon_loop docs scores cm k ord (emit n (scores ! i) (docs ! i) out)"
      using False by (simp add: Let_def n_def)
    also have "\<dots> = emit n (scores ! i) (docs ! i) out
                 @ expand_walk (map (\<lambda>i. (docs ! i, scores ! i, counts_get cm (docs ! i))) ord)
                     k (length out + n)"
      by (simp add: Cons.IH length_emit)
    finally show ?thesis
      using False by (simp add: emit_eq n_def)
  qed
qed

lemma expand_walk_done: "k \<le> int e \<Longrightarrow> expand_walk cls k e = []"
  by (cases cls) auto

lemma expand_walk_ranks:
  "j < length (expand_walk cls k e) \<Longrightarrow> e_rank (expand_walk cls k e ! j) = e + j + 1"
proof (induction cls arbitrary: e j)
  case Nil
  then show ?case by simp
next
  case (Cons x cls)
  obtain doc sc c where x: "x = (doc, sc, c)"
    by (cases x)
  show ?case
  proof (cases "k \<le> int e")
    case True
    then show ?thesis using Cons.prems by (simp add: x)
  next
    case False
    define n where "n = nat (min c (k - int e))"
    have walk: "expand_walk (x # cls) k e
                  = map (\<lambda>j. \<lparr>e_rank = e + j + 1, e_score = sc, e_doc = doc\<rparr>) [0..<n]
                    @ expand_walk cls k (e + n)"
      using False by (simp add: x n_def)
    show ?thesis
    proof (cases "j < n")
      case True
      then show ?thesis by (simp add: walk nth_append)
    next
      case False
      then have "j - n < length (expand_walk cls k (e + n))"
        using Cons.prems by (simp add: walk)
      then have "e_rank (expand_walk cls k (e + n) ! (j - n)) = e + n + (j - n) + 1"
        by (rule Cons.IH)
      then show ?thesis
        using False by (simp add: walk nth_append)
    qed
  qed
qed

lemma slots_left: "a - (e + min b (a - e)) = a - e - (b::nat)"
  by (cases "b \<le> a - e") simp_all

lemma expand_walk_closed:
  "map (\<lambda>x. (e_doc x, e_score x)) (expand_walk cls k e)
     = take (nat k - e) (concat (map (\<lambda>(doc, sc, c). replicate (nat c) (doc, sc)) cls))"
proof (induction cls arbitrary: e)
  case Nil
  then show ?case by simp
next
  case (Cons x cls)
  obtain doc sc c where x: "x = (doc, sc, c)"
    by (cases x)
  show ?case
  proof (cases "k \<le> int e")
    case True
    then have "nat k - e = 0"
      by simp
    then show ?thesis
      using True by (simp add: x)
  next
    case False
    define r where "r = nat k - e"
    define n where "n = nat (min c (k - int e))"
    have n: "n = min (nat c) r"
      using False by (simp add: n_def r_def min_def nat_diff_distrib' nat_le_iff) 
    have rest: "nat k - (e + n) = r - nat c"
      unfolding n r_def by (rule slots_left)
    have "map (\<lambda>x. (e_doc x, e_score x)) (expand_walk (x # cls) k e)
            = replicate n (doc, sc)
              @ take (r - nat c) (concat (map (\<lambda>(doc, sc, c). replicate (nat c) (doc, sc)) cls))"
      using False by (simp add: x n_def [symmetric] Cons.IH rest map_replicate_const comp_def)
    also have "\<dots> = take r (replicate (nat c) (doc, sc)
                         @ concat (map (\<lambda>(doc, sc, c). replicate (nat c) (doc, sc)) cls))"
      by (simp add: n min.commute)
    finally show ?thesis
      by (simp add: x r_def)
  qed
qed

lemma expand_walk_append:
  "expand_walk (xs @ ys) k e
     = expand_walk xs k e @ expand_walk ys k (e + length (expand_walk xs k e))"
proof (induction xs arbitrary: e)
  case Nil
  then show ?case by simp
next
  case (Cons x xs)
  obtain doc sc c where x: "x = (doc, sc, c)"
    by (cases x)
  show ?case
  proof (cases "k \<le> int e")
    case True
    then show ?thesis by (simp add: x expand_walk_done)
  next
    case False
    then show ?thesis
      by (simp add: x Cons.IH add.assoc)
  qed
qed

lemma expand_walk_stops:
  assumes "k \<le> int (length (expand_walk (take n cls) k 0))"
  shows "expand_walk cls k 0 = expand_walk (take n cls) k 0"
proof -
  have "expand_walk (take n cls @ drop n cls) k 0
          = expand_walk (take n cls) k 0
            @ expand_walk (drop n cls) k (0 + length (expand_walk (take n cls) k 0))"
    by (rule expand_walk_append)
  then show ?thesis
    using assms by (simp add: expand_walk_done)
qed

lemma topk_reconstructed_run:
  "length scores = length docs \<Longrightarrow>
   topk_reconstructed docs scores cm k
     = Inr (expand_walk (map (\<lambda>i. (docs ! i, scores ! i, counts_get cm (docs ! i)))
                          (sort_order docs scores)) k 0)"
  by (simp add: topk_reconstructed_def recon_loop_walk)

lemma sort_order_sorted:
  "sorted_wrt (\<lambda>i j. scores ! j < scores ! i \<or> (scores ! j = scores ! i \<and> docs ! j \<le> docs ! i))
     (sort_order docs scores)"
proof -
  have "sorted_wrt (\<lambda>i j. (scores ! j, docs ! j) \<le> (scores ! i, docs ! i)) (sort_order docs scores)"
    using sort_order_props [of docs scores] by blast
  then show ?thesis
    by (simp only: pair_le_iff)
qed

lemma classes_closed:
  "concat (map (\<lambda>(doc, sc, c). replicate (nat c) (doc, sc))
             (map (\<lambda>i. (docs ! i, scores ! i, counts_get cm (docs ! i))) ord))
   = concat (map (\<lambda>i. replicate (nat (counts_get cm (docs ! i))) (docs ! i, scores ! i)) ord)"
  by (simp add: comp_def)

text \<open>
  Claim C4. For every list of unique documents with parallel scores, count map and K, the
  expander orders the unique documents by (score descending, document string descending),
  then walks that order: a document of multiplicity c = count_map.get(doc, 1) adds
  min(c, remaining slots) consecutive entries with its score, the ranks run 1, 2, ... in
  the order of emission, and the walk stops once K entries are out, so that the documents
  after that point do not reach the result.
\<close>

theorem topk_reconstructed_walk:
  assumes "length scores = length docs"
  shows "\<exists>out. topk_reconstructed docs scores cm k = Inr out
     \<and> set (sort_order docs scores) = {0..<length docs}
     \<and> distinct (sort_order docs scores)
     \<and> sorted_wrt (\<lambda>i j. scores ! j < scores ! i
                          \<or> (scores ! j = scores ! i \<and> docs ! j \<le> docs ! i))
          (sort_order docs scores)
     \<and> out = expand_walk (map (\<lambda>i. (docs ! i, scores ! i, counts_get cm (docs ! i)))
                            (sort_order docs scores)) k 0
     \<and> (\<forall>j<length out. e_rank (out ! j) = j + 1)
     \<and> map (\<lambda>x. (e_doc x, e_score x)) out
         = take (nat k)
             (concat (map (\<lambda>i. replicate (nat (counts_get cm (docs ! i))) (docs ! i, scores ! i))
                        (sort_order docs scores)))
     \<and> (\<forall>n. k \<le> int (length (expand_walk
                  (take n (map (\<lambda>i. (docs ! i, scores ! i, counts_get cm (docs ! i)))
                             (sort_order docs scores))) k 0))
            \<longrightarrow> out = expand_walk
                  (take n (map (\<lambda>i. (docs ! i, scores ! i, counts_get cm (docs ! i)))
                             (sort_order docs scores))) k 0)"
proof -
  define cls where
    "cls = map (\<lambda>i. (docs ! i, scores ! i, counts_get cm (docs ! i))) (sort_order docs scores)"
  define out where "out = expand_walk cls k 0"
  have run: "topk_reconstructed docs scores cm k = Inr out"
    using topk_reconstructed_run [OF assms] by (simp add: out_def cls_def)
  have perm: "set (sort_order docs scores) = {0..<length docs}"
    and dist: "distinct (sort_order docs scores)"
    using sort_order_props [of docs scores] by blast+
  have ranks: "\<forall>j<length out. e_rank (out ! j) = j + 1"
    using expand_walk_ranks [of _ cls k 0] by (simp add: out_def)
  have closed: "map (\<lambda>x. (e_doc x, e_score x)) out
         = take (nat k)
             (concat (map (\<lambda>i. replicate (nat (counts_get cm (docs ! i))) (docs ! i, scores ! i))
                        (sort_order docs scores)))"
    using expand_walk_closed [of cls k 0] classes_closed [of docs scores cm "sort_order docs scores"]
    by (simp add: out_def cls_def)
  have stop: "\<forall>n. k \<le> int (length (expand_walk (take n cls) k 0))
                \<longrightarrow> out = expand_walk (take n cls) k 0"
    using expand_walk_stops [of k _ cls] by (simp add: out_def)
  show ?thesis
    using run perm dist sort_order_sorted [of scores docs] ranks closed stop
    unfolding out_def cls_def by blast
qed

theorem topk_reconstructed_walk_witness:
  "length [1, 1, 0 :: real] = length [''b'', ''a'', ''c'']
   \<and> topk_reconstructed [''b'', ''a'', ''c''] [1, 1, 0] [''b'' \<mapsto> 2] 4
       = Inr [\<lparr>e_rank = 1, e_score = 1, e_doc = ''b''\<rparr>,
              \<lparr>e_rank = 2, e_score = 1, e_doc = ''b''\<rparr>,
              \<lparr>e_rank = 3, e_score = 1, e_doc = ''a''\<rparr>,
              \<lparr>e_rank = 4, e_score = 0, e_doc = ''c''\<rparr>]"
proof -
  have len: "length [1, 1, 0 :: real] = length [''b'', ''a'', ''c'']"
    by simp
  have ord: "sort_order [''b'', ''a'', ''c''] [1, 1, 0] = [0, 1, 2]"
    by (simp add: sort_order_def sort_rev_by_def upt_rec numeral_2_eq_2 numeral_3_eq_3)
  have "expand_walk (map (\<lambda>i. ([''b'', ''a'', ''c''] ! i, [1, 1, 0 :: real] ! i,
                                counts_get [''b'' \<mapsto> 2] ([''b'', ''a'', ''c''] ! i)))
                       [0, 1, 2]) 4 0
        = [\<lparr>e_rank = 1, e_score = 1, e_doc = ''b''\<rparr>,
           \<lparr>e_rank = 2, e_score = 1, e_doc = ''b''\<rparr>,
           \<lparr>e_rank = 3, e_score = 1, e_doc = ''a''\<rparr>,
           \<lparr>e_rank = 4, e_score = 0, e_doc = ''c''\<rparr>]"
    by (simp add: counts_get_def upt_rec numeral_2_eq_2)
  then show ?thesis
    using len ord topk_reconstructed_walk [OF len, of "[''b'' \<mapsto> 2]" 4] by auto
qed

subsection \<open>How many entries the expander emits\<close>

lemma length_concat_replicate:
  "length (concat (map (\<lambda>i. replicate (n i) (x i)) ord)) = sum_list (map n ord)"
  by (induction ord) simp_all

lemma sum_list_sort_order:
  "sum_list (map (\<lambda>i. g (docs ! i)) (sort_order docs scores)) = sum_list (map g docs)"
  for g :: "string \<Rightarrow> nat"
proof -
  have "mset (sort_order docs scores) = mset [0..<length docs]"
    by (simp add: sort_order_def mset_sort_rev_by)
  then have "mset (map (\<lambda>i. g (docs ! i)) (sort_order docs scores))
               = mset (map (\<lambda>i. g (docs ! i)) [0..<length docs])"
    by simp
  then have "sum_list (map (\<lambda>i. g (docs ! i)) (sort_order docs scores))
               = sum_list (map (\<lambda>i. g (docs ! i)) [0..<length docs])"
    by (metis sum_mset_sum_list)
  also have "map (\<lambda>i. g (docs ! i)) [0..<length docs] = map g docs"
    by (rule nth_equalityI) simp_all
  finally show ?thesis .
qed

lemma sum_list_nat_ge: "sum_list (map f xs) \<le> int (sum_list (map (\<lambda>x. nat (f x)) xs))"
  by (induction xs) auto

lemma topk_reconstructed_count:
  assumes "length scores = length docs"
  shows "\<exists>out. topk_reconstructed docs scores cm k = Inr out
           \<and> length out = min (nat k) (sum_list (map (\<lambda>d. nat (counts_get cm d)) docs))"
proof -
  define cls where
    "cls = map (\<lambda>i. (docs ! i, scores ! i, counts_get cm (docs ! i))) (sort_order docs scores)"
  define out where "out = expand_walk cls k 0"
  have run: "topk_reconstructed docs scores cm k = Inr out"
    using topk_reconstructed_run [OF assms] by (simp add: out_def cls_def)
  have "length out = length (map (\<lambda>x. (e_doc x, e_score x)) out)"
    by simp
  also have "\<dots> = length (take (nat k)
             (concat (map (\<lambda>i. replicate (nat (counts_get cm (docs ! i))) (docs ! i, scores ! i))
                        (sort_order docs scores))))"
    using expand_walk_closed [of cls k 0] classes_closed [of docs scores cm "sort_order docs scores"]
    by (simp add: out_def cls_def)
  also have "\<dots> = min (nat k)
             (sum_list (map (\<lambda>i. nat (counts_get cm (docs ! i))) (sort_order docs scores)))"
    by (simp add: length_concat_replicate min.commute)
  also have "\<dots> = min (nat k) (sum_list (map (\<lambda>d. nat (counts_get cm d)) docs))"
    by (simp add: sum_list_sort_order [of "\<lambda>d. nat (counts_get cm d)"])
  finally show ?thesis
    using run by blast
qed

text \<open>
  Claim C5, amended. For every run of the expander with K \<ge> 0, the number of entries it
  emits never exceeds K, and it equals K unless the total counted occurrences of the
  REDUCED corpus (the sum of each unique document's multiplicity) is less than K. For any
  K the number is the smaller of max(K, 0) and the sum of the positive multiplicities.
\<close>

theorem topk_reconstructed_length:
  assumes "length scores = length docs" "0 \<le> k"
  shows "\<exists>out. topk_reconstructed docs scores cm k = Inr out
           \<and> int (length out) \<le> k
           \<and> (k \<le> sum_list (map (counts_get cm) docs) \<longrightarrow> int (length out) = k)
           \<and> length out = min (nat k) (sum_list (map (\<lambda>d. nat (counts_get cm d)) docs))"
proof -
  obtain out where run: "topk_reconstructed docs scores cm k = Inr out"
    and len: "length out = min (nat k) (sum_list (map (\<lambda>d. nat (counts_get cm d)) docs))"
    using topk_reconstructed_count [OF assms(1)] by blast
  have "int (length out) \<le> k"
    using len assms(2) by simp
  moreover have "int (length out) = k" if "k \<le> sum_list (map (counts_get cm) docs)"
  proof -
    have "k \<le> int (sum_list (map (\<lambda>d. nat (counts_get cm d)) docs))"
      using that sum_list_nat_ge [of "counts_get cm" docs] by simp
    then have "nat k \<le> sum_list (map (\<lambda>d. nat (counts_get cm d)) docs)"
      by simp
    then show ?thesis
      using len assms(2) by simp
  qed
  ultimately show ?thesis
    using run len by blast
qed

theorem topk_reconstructed_length_witness:
  "length [1, 1, 0 :: real] = length [''b'', ''a'', ''c'']
   \<and> (0::int) \<le> 3
   \<and> (3::int) \<le> sum_list (map (counts_get [''b'' \<mapsto> 2]) [''b'', ''a'', ''c''])
   \<and> (\<exists>out. topk_reconstructed [''b'', ''a'', ''c''] [1, 1, 0] [''b'' \<mapsto> 2] 3 = Inr out
         \<and> int (length out) = 3)"
proof -
  have len: "length [1, 1, 0 :: real] = length [''b'', ''a'', ''c'']"
    by simp
  have k: "(0::int) \<le> 3"
    by simp
  have total: "(3::int) \<le> sum_list (map (counts_get [''b'' \<mapsto> 2]) [''b'', ''a'', ''c''])"
    by (simp add: counts_get_def)
  show ?thesis
    using len k total topk_reconstructed_length [OF len k, of "[''b'' \<mapsto> 2]"] by blast
qed

text \<open>The claim as stated covers a negative K: the loop then stops at once with no
  entry, and 0 entries exceed K = -1 (while the counted occurrences, 1, are not below K).\<close>

theorem topk_reconstructed_negative_k_counterexample:
  "topk_reconstructed [''a''] [0] Map.empty (- 1) = Inr []
   \<and> \<not> int (length ([] :: ranked list)) \<le> - 1
   \<and> \<not> sum_list (map (counts_get Map.empty) [''a'']) < - 1
   \<and> int (length ([] :: ranked list)) \<noteq> - 1"
  by (simp add: topk_reconstructed_def sort_order_def sort_rev_by_def counts_get_def)

subsection \<open>Documents with a count that is not positive\<close>

lemma expand_walk_filter:
  "\<forall>(x, s, c)\<in>set cls. x = d \<longrightarrow> c \<le> 0 \<Longrightarrow>
   expand_walk (filter (\<lambda>(x, s, c). x \<noteq> d) cls) k e = expand_walk cls k e"
proof (induction cls arbitrary: e)
  case Nil
  then show ?case by simp
next
  case (Cons y cls)
  obtain x s c where y: "y = (x, s, c)"
    by (cases y)
  have rest: "\<forall>(x, s, c)\<in>set cls. x = d \<longrightarrow> c \<le> 0"
    using Cons.prems by simp
  show ?case
  proof (cases "x = d")
    case True
    then have "c \<le> 0"
      using Cons.prems by (simp add: y)
    then have "nat (min c (k - int e)) = 0"
      by simp
    then have skip: "expand_walk (y # cls) k e = expand_walk cls k e"
      by (simp add: y expand_walk_done)
    have drop: "filter (\<lambda>(x, s, c). x \<noteq> d) (y # cls) = filter (\<lambda>(x, s, c). x \<noteq> d) cls"
      using True by (simp add: y)
    show ?thesis
      by (simp only: drop skip Cons.IH [OF rest])
  next
    case False
    have "expand_walk (filter (\<lambda>(x, s, c). x \<noteq> d) (y # cls)) k e
            = expand_walk ((x, s, c) # filter (\<lambda>(x, s, c). x \<noteq> d) cls) k e"
      using False by (simp add: y)
    also have "\<dots> = (if k \<le> int e then []
                      else map (\<lambda>j. \<lparr>e_rank = e + j + 1, e_score = s, e_doc = x\<rparr>)
                             [0..<nat (min c (k - int e))]
                           @ expand_walk cls k (e + nat (min c (k - int e))))"
      by (simp only: expand_walk.simps Cons.IH [OF rest])
    also have "\<dots> = expand_walk (y # cls) k e"
      by (simp only: y expand_walk.simps)
    finally show ?thesis .
  qed
qed

lemma classes_pairs:
  assumes "length scores = length docs"
  shows "map (\<lambda>i. (docs ! i, scores ! i, counts_get cm (docs ! i))) (sort_order docs scores)
           = map (\<lambda>(s, x). (x, s, counts_get cm x)) (sort_rev_by (\<lambda>p. p) (zip scores docs))"
proof -
  have "map (\<lambda>i. (docs ! i, scores ! i, counts_get cm (docs ! i))) (sort_order docs scores)
          = map (\<lambda>(s, x). (x, s, counts_get cm x))
              (map (\<lambda>i. (scores ! i, docs ! i)) (sort_order docs scores))"
    by (simp add: comp_def)
  then show ?thesis
    by (simp only: sort_order_pairs [OF assms])
qed

lemma classes_without:
  assumes "length scores = length docs"
    and ps_def: "ps = filter (\<lambda>p. snd p \<noteq> d) (zip scores docs)"
  shows "map (\<lambda>i. (map snd ps ! i, map fst ps ! i, counts_get cm (map snd ps ! i)))
           (sort_order (map snd ps) (map fst ps))
         = filter (\<lambda>(x, s, c). x \<noteq> d)
             (map (\<lambda>i. (docs ! i, scores ! i, counts_get cm (docs ! i))) (sort_order docs scores))"
proof -
  have len: "length (map fst ps) = length (map snd ps)"
    by simp
  have "map (\<lambda>i. (map snd ps ! i, map fst ps ! i, counts_get cm (map snd ps ! i)))
           (sort_order (map snd ps) (map fst ps))
        = map (\<lambda>(s, x). (x, s, counts_get cm x)) (sort_rev_by (\<lambda>p. p) (zip (map fst ps) (map snd ps)))"
    by (rule classes_pairs [OF len])
  also have "zip (map fst ps) (map snd ps) = ps"
    by (rule zip_map_fst_snd)
  also have "sort_rev_by (\<lambda>p. p) ps
               = filter (\<lambda>p. snd p \<noteq> d) (sort_rev_by (\<lambda>p. p) (zip scores docs))"
    by (simp add: ps_def filter_sort_rev_by)
  also have "map (\<lambda>(s, x). (x, s, counts_get cm x))
               (filter (\<lambda>p. snd p \<noteq> d) (sort_rev_by (\<lambda>p. p) (zip scores docs)))
             = filter (\<lambda>(x, s, c). x \<noteq> d)
                 (map (\<lambda>(s, x). (x, s, counts_get cm x)) (sort_rev_by (\<lambda>p. p) (zip scores docs)))"
    by (simp add: filter_map comp_def case_prod_beta)
  finally show ?thesis
    by (simp only: classes_pairs [OF assms(1)])
qed

text \<open>
  Claim C10. When the count map gives a document a value that is zero or negative, the
  expander raises no error, that document adds no entry to the output, and the walk goes
  on with the documents after it: the output is the one the expander gives for the same
  unique documents and scores with that document left out.
\<close>

theorem topk_reconstructed_skips_nonpositive:
  assumes "length scores = length docs" "cm d = Some c" "c \<le> 0"
  shows "\<exists>out. topk_reconstructed docs scores cm k = Inr out
           \<and> d \<notin> e_doc ` set out
           \<and> topk_reconstructed
                (map snd (filter (\<lambda>p. snd p \<noteq> d) (zip scores docs)))
                (map fst (filter (\<lambda>p. snd p \<noteq> d) (zip scores docs))) cm k = Inr out"
proof -
  define cls where
    "cls = map (\<lambda>i. (docs ! i, scores ! i, counts_get cm (docs ! i))) (sort_order docs scores)"
  define ps where "ps = filter (\<lambda>p. snd p \<noteq> d) (zip scores docs)"
  define out where "out = expand_walk cls k 0"
  have cd: "counts_get cm d \<le> 0"
    using assms(2,3) by (simp add: counts_get_def)
  have run: "topk_reconstructed docs scores cm k = Inr out"
    using topk_reconstructed_run [OF assms(1)] by (simp add: out_def cls_def)
  have nonpos: "\<forall>(x, s, c)\<in>set cls. x = d \<longrightarrow> c \<le> 0"
    using cd by (auto simp: cls_def)
  have "set (map (\<lambda>x. (e_doc x, e_score x)) out)
          \<subseteq> set (concat (map (\<lambda>(doc, sc, c). replicate (nat c) (doc, sc)) cls))"
    unfolding out_def expand_walk_closed by (rule set_take_subset)
  moreover have "fst p \<noteq> d"
    if "p \<in> set (concat (map (\<lambda>(doc, sc, c). replicate (nat c) (doc, sc)) cls))" for p
    using that nonpos by (auto split: if_splits)
  ultimately have absent: "d \<notin> e_doc ` set out"
    by force
  have len: "length (map fst ps) = length (map snd ps)"
    by simp
  have "topk_reconstructed (map snd ps) (map fst ps) cm k
          = Inr (expand_walk (filter (\<lambda>(x, s, c). x \<noteq> d) cls) k 0)"
    using topk_reconstructed_run [OF len, of cm k] classes_without [OF assms(1) ps_def, of cm]
    by (simp only: cls_def)
  then have "topk_reconstructed (map snd ps) (map fst ps) cm k = Inr out"
    by (simp add: expand_walk_filter [OF nonpos] out_def)
  then show ?thesis
    using run absent unfolding ps_def by blast
qed

theorem topk_reconstructed_skips_nonpositive_witness:
  "length [1, 1, 0 :: real] = length [''b'', ''a'', ''c'']
   \<and> [''b'' \<mapsto> - 2, ''a'' \<mapsto> 2] ''b'' = Some (- 2)
   \<and> (- 2 :: int) \<le> 0
   \<and> topk_reconstructed [''b'', ''a'', ''c''] [1, 1, 0] [''b'' \<mapsto> - 2, ''a'' \<mapsto> 2] 4
       = Inr [\<lparr>e_rank = 1, e_score = 1, e_doc = ''a''\<rparr>,
              \<lparr>e_rank = 2, e_score = 1, e_doc = ''a''\<rparr>,
              \<lparr>e_rank = 3, e_score = 0, e_doc = ''c''\<rparr>]
   \<and> topk_reconstructed [''a'', ''c''] [1, 0] [''b'' \<mapsto> - 2, ''a'' \<mapsto> 2] 4
       = Inr [\<lparr>e_rank = 1, e_score = 1, e_doc = ''a''\<rparr>,
              \<lparr>e_rank = 2, e_score = 1, e_doc = ''a''\<rparr>,
              \<lparr>e_rank = 3, e_score = 0, e_doc = ''c''\<rparr>]"
proof -
  have len: "length [1, 1, 0 :: real] = length [''b'', ''a'', ''c'']"
    by simp
  have cm: "[''b'' \<mapsto> - 2, ''a'' \<mapsto> 2] ''b'' = Some (- 2 :: int)"
    by simp
  have neg: "(- 2 :: int) \<le> 0"
    by simp
  have ord: "sort_order [''a'', ''c''] [1, 0] = [0, 1]"
    by (simp add: sort_order_def sort_rev_by_def upt_rec numeral_2_eq_2)
  have short: "topk_reconstructed [''a'', ''c''] [1, 0] [''b'' \<mapsto> - 2, ''a'' \<mapsto> 2] 4
       = Inr [\<lparr>e_rank = 1, e_score = 1, e_doc = ''a''\<rparr>,
              \<lparr>e_rank = 2, e_score = 1, e_doc = ''a''\<rparr>,
              \<lparr>e_rank = 3, e_score = 0, e_doc = ''c''\<rparr>]"
    by (simp add: topk_reconstructed_def ord counts_get_def Let_def numeral_2_eq_2 numeral_3_eq_3)
  have filtered:
    "map snd (filter (\<lambda>p. snd p \<noteq> ''b'') (zip [1, 1, 0 :: real] [''b'', ''a'', ''c'']))
       = [''a'', ''c'']"
    "map fst (filter (\<lambda>p. snd p \<noteq> ''b'') (zip [1, 1, 0 :: real] [''b'', ''a'', ''c'']))
       = [1, 0]"
    by simp_all
  show ?thesis
    using len cm neg short
      topk_reconstructed_skips_nonpositive
        [where scores = "[1, 1, 0]" and docs = "[''b'', ''a'', ''c'']"
           and cm = "[''b'' \<mapsto> - 2, ''a'' \<mapsto> 2]" and d = "''b''" and c = "- 2" and k = 4,
         OF len cm neg]
    unfolding filtered by auto
qed

section \<open>Locked statistics: the reconstruction matches the full ranking\<close>

subsection \<open>Sorting a corpus against sorting its distinct documents\<close>

lemma sort_rev_by_id: "sort_rev_by (\<lambda>p. p) xs = rev (sort xs)"
proof -
  have "sort (rev xs) = sort xs"
    by (rule properties_for_sort) simp_all
  then show ?thesis
    by (simp add: sort_rev_by_def)
qed

lemma sorted_concat_replicate:
  "sorted xs \<Longrightarrow> sorted (concat (map (\<lambda>p. replicate (n p) p) xs))"
proof (induction xs)
  case Nil
  then show ?case by simp
next
  case (Cons x xs)
  then have "sorted (concat (map (\<lambda>p. replicate (n p) p) xs))" and "\<forall>y\<in>set xs. x \<le> y"
    by simp_all
  then show ?case
    by (auto simp: sorted_append)
qed

lemma count_concat_replicate:
  "distinct xs \<Longrightarrow>
   count (mset (concat (map (\<lambda>p. replicate (n p) p) xs))) p = (if p \<in> set xs then n p else 0)"
  by (induction xs) auto

lemma sort_expand:
  fixes A B :: "'a::linorder list"
  assumes "distinct B" "set B = set A"
  shows "sort A = concat (map (\<lambda>p. replicate (count_list A p) p) (sort B))"
proof (rule properties_for_sort)
  show "sorted (concat (map (\<lambda>p. replicate (count_list A p) p) (sort B)))"
    by (rule sorted_concat_replicate) simp
  show "mset (concat (map (\<lambda>p. replicate (count_list A p) p) (sort B))) = mset A"
  proof (rule multiset_eqI)
    fix p
    have "count (mset (concat (map (\<lambda>p. replicate (count_list A p) p) (sort B)))) p
            = (if p \<in> set (sort B) then count_list A p else 0)"
      using assms(1) by (intro count_concat_replicate) simp
    also have "\<dots> = count_list A p"
      using assms(2) by (simp add: count_list_0_iff)
    finally show "count (mset (concat (map (\<lambda>p. replicate (count_list A p) p) (sort B)))) p
                    = count (mset A) p"
      by (simp add: count_mset)
  qed
qed

lemma count_list_key: "count_list (map (\<lambda>d. (sc d, d)) xs) (sc d, d) = count_list xs d"
  by (induction xs) simp_all

lemma concat_map_cong:
  "(\<And>x. x \<in> set xs \<Longrightarrow> f x = g x) \<Longrightarrow> concat (map f xs) = concat (map g xs)"
  by (induction xs) simp_all

lemma sort_order_keys:
  "map (\<lambda>i. (map sc docs ! i, docs ! i)) (sort_order docs (map sc docs))
     = rev (sort (map (\<lambda>d. (sc d, d)) docs))"
proof -
  have "zip (map sc docs) docs = map (\<lambda>d. (sc d, d)) docs"
    by (induction docs) simp_all
  then show ?thesis
    using sort_order_pairs [of "map sc docs" docs] by (simp add: sort_rev_by_id)
qed

lemma full_vs_recon_docs:
  fixes sc :: "string \<Rightarrow> real"
  assumes "distinct red" "set red = set full"
  shows "map (\<lambda>i. full ! i) (sort_order full (map sc full))
           = concat (map (\<lambda>i. replicate (count_list full (red ! i)) (red ! i))
                       (sort_order red (map sc red)))"
proof -
  define A where "A = map (\<lambda>d. (sc d, d)) full"
  define B where "B = map (\<lambda>d. (sc d, d)) red"
  have distB: "distinct B"
    using assms(1) by (simp add: B_def distinct_map inj_on_def)
  have setB: "set B = set A"
    using assms(2) by (simp add: A_def B_def)
  have "map (\<lambda>i. full ! i) (sort_order full (map sc full))
          = map snd (map (\<lambda>i. (map sc full ! i, full ! i)) (sort_order full (map sc full)))"
    by (simp add: comp_def)
  also have "\<dots> = map snd (rev (sort A))"
    by (simp only: sort_order_keys A_def)
  also have "sort A = concat (map (\<lambda>p. replicate (count_list A p) p) (sort B))"
    by (rule sort_expand [OF distB setB])
  also have "map snd (rev (concat (map (\<lambda>p. replicate (count_list A p) p) (sort B))))
               = concat (map (\<lambda>p. replicate (count_list A p) (snd p)) (rev (sort B)))"
    by (simp add: rev_concat map_concat comp_def rev_map)
  also have "\<dots> = concat (map (\<lambda>p. replicate (count_list full (snd p)) (snd p)) (rev (sort B)))"
  proof (rule concat_map_cong)
    fix p assume "p \<in> set (rev (sort B))"
    then obtain d where "p = (sc d, d)"
      by (auto simp: B_def)
    then show "replicate (count_list A p) (snd p) = replicate (count_list full (snd p)) (snd p)"
      by (simp add: A_def count_list_key)
  qed
  also have "rev (sort B) = map (\<lambda>i. (map sc red ! i, red ! i)) (sort_order red (map sc red))"
    by (simp only: sort_order_keys B_def)
  finally show ?thesis
    by (simp add: comp_def)
qed

lemma diff_topk_same:
  assumes "\<And>j. j < length a \<Longrightarrow> j < length b \<Longrightarrow> e_doc (a ! j) = e_doc (b ! j)"
  shows "diff_topk a b = []"
proof -
  have "\<not> (\<lambda>(i, x, y). e_doc x \<noteq> e_doc y) t" if "t \<in> set (enumerate 0 (zip a b))" for t
  proof -
    obtain i x y where t: "t = (i, x, y)"
      by (cases t)
    then have "i < length (zip a b)" "zip a b ! i = (x, y)"
      using that by (simp_all add: in_set_enumerate_eq)
    then have "i < length a" "i < length b" "x = a ! i" "y = b ! i"
      by simp_all
    then show ?thesis
      using assms [of i] by (simp add: t)
  qed
  then have "filter (\<lambda>(i, x, y). e_doc x \<noteq> e_doc y) (enumerate 0 (zip a b)) = []"
    by (simp only: filter_empty_conv) blast
  then show ?thesis
    by (simp add: diff_topk_def)
qed

lemma topk_docs_docs:
  assumes "length scores = length docs" "0 \<le> k"
  shows "\<exists>out. topk_docs docs scores k = Inr out
           \<and> length out = min (nat k) (length docs)
           \<and> map e_doc out = take (nat k) (map (\<lambda>i. docs ! i) (sort_order docs scores))"
proof -
  obtain out where run: "topk_docs docs scores k = Inr out"
    and len: "length out = min (nat k) (length docs)"
    and nth: "\<And>j. j < length out \<Longrightarrow>
                out ! j = \<lparr>e_rank = j + 1, e_score = scores ! (sort_order docs scores ! j),
                           e_doc = docs ! (sort_order docs scores ! j),
                           e_i = sort_order docs scores ! j\<rparr>"
    using topk_docs_entries [OF assms] by blast
  have len_idx: "length (sort_order docs scores) = length docs"
    using sort_order_props [of docs scores] by blast
  have "map e_doc out = take (nat k) (map (\<lambda>i. docs ! i) (sort_order docs scores))"
    by (rule nth_equalityI) (use len len_idx in \<open>simp_all add: nth min.commute\<close>)
  then show ?thesis
    using run len by blast
qed

lemma topk_reconstructed_docs:
  assumes "length scores = length docs"
  shows "\<exists>out. topk_reconstructed docs scores cm k = Inr out
           \<and> map e_doc out
               = take (nat k)
                   (concat (map (\<lambda>i. replicate (nat (counts_get cm (docs ! i))) (docs ! i))
                              (sort_order docs scores)))"
proof -
  define cls where
    "cls = map (\<lambda>i. (docs ! i, scores ! i, counts_get cm (docs ! i))) (sort_order docs scores)"
  define out where "out = expand_walk cls k 0"
  have run: "topk_reconstructed docs scores cm k = Inr out"
    using topk_reconstructed_run [OF assms] by (simp add: out_def cls_def)
  have "map e_doc out = map fst (map (\<lambda>x. (e_doc x, e_score x)) out)"
    by (simp add: comp_def)
  also have "\<dots> = map fst (take (nat k)
             (concat (map (\<lambda>i. replicate (nat (counts_get cm (docs ! i))) (docs ! i, scores ! i))
                        (sort_order docs scores))))"
    using expand_walk_closed [of cls k 0] classes_closed [of docs scores cm "sort_order docs scores"]
    by (simp add: out_def cls_def)
  also have "\<dots> = take (nat k)
             (concat (map (\<lambda>i. replicate (nat (counts_get cm (docs ! i))) (docs ! i))
                        (sort_order docs scores)))"
    by (simp add: take_map [symmetric] map_concat comp_def)
  finally show ?thesis
    using run by blast
qed

lemma strict_scores:
  assumes "build_full_stats full_docs = (toks, dl, N, avgdl, df)"
  shows "map_err (\<lambda>i. bm25_score_doc (toks ! i) q_terms N avgdl df k1_default b_default)
           [0..<length full_docs]
         = Inr (map (\<lambda>d. bm25_formula (tokenize d) q_terms N avgdl df k1_default b_default)
                  full_docs)"
    and "map_err (\<lambda>d. bm25_score_doc (tokenize d) q_terms N avgdl df k1_default b_default) red_docs
         = Inr (map (\<lambda>d. bm25_formula (tokenize d) q_terms N avgdl df k1_default b_default)
                  red_docs)"
proof -
  have toks: "toks = map tokenize full_docs" and ok: "stats_ok N avgdl df"
    using build_full_stats_ok [OF assms] by blast+
  have "map_err (\<lambda>i. bm25_score_doc (toks ! i) q_terms N avgdl df k1_default b_default)
           [0..<length full_docs]
        = Inr (map (\<lambda>i. bm25_formula (tokenize (full_docs ! i)) q_terms N avgdl df
                           k1_default b_default) [0..<length full_docs])"
    by (rule map_err_Inr) (simp add: toks bm25_score_doc_ok [OF ok])
  moreover have "map (\<lambda>i. bm25_formula (tokenize (full_docs ! i)) q_terms N avgdl df
                           k1_default b_default) [0..<length full_docs]
                 = map (\<lambda>d. bm25_formula (tokenize d) q_terms N avgdl df k1_default b_default)
                     full_docs"
    by (rule nth_equalityI) simp_all
  ultimately show "map_err (\<lambda>i. bm25_score_doc (toks ! i) q_terms N avgdl df k1_default b_default)
           [0..<length full_docs]
         = Inr (map (\<lambda>d. bm25_formula (tokenize d) q_terms N avgdl df k1_default b_default)
                  full_docs)"
    by simp
  show "map_err (\<lambda>d. bm25_score_doc (tokenize d) q_terms N avgdl df k1_default b_default) red_docs
         = Inr (map (\<lambda>d. bm25_formula (tokenize d) q_terms N avgdl df k1_default b_default)
                  red_docs)"
    by (rule map_err_Inr) (simp add: bm25_score_doc_ok [OF ok])
qed

text \<open>
  Claim C1. In locked-statistics mode, if REDUCED lists exactly the distinct documents of
  FULL, each once, and the count map gives every REDUCED document its number of
  occurrences in FULL, then for every query and every K \<le> |FULL| the run returns, the
  positional diff of the FULL top-K against the reconstructed top-K has no mismatch and
  the report states PASS. For K \<ge> 0 the two top-K lists hold the same documents in the
  same order, K of them.
\<close>

theorem strict_run_pass:
  assumes "distinct red_docs"
    and "set red_docs = set full_docs"
    and "\<forall>d\<in>set red_docs. counts_map d = Some (int (count_list full_docs d))"
    and "k \<le> int (length full_docs)"
  shows "\<exists>full_top red_top.
           strict_run full_docs red_docs counts_map q_terms k = Inr (full_top, red_top, [])
           \<and> status_pass (diff_topk full_top red_top)
           \<and> (0 \<le> k \<longrightarrow> map e_doc full_top = map e_doc red_top \<and> int (length full_top) = k)"
proof -
  obtain toks dl N avgdl df where st: "build_full_stats full_docs = (toks, dl, N, avgdl, df)"
    by (cases "build_full_stats full_docs")
  define sc where
    "sc = (\<lambda>d. bm25_formula (tokenize d) q_terms N avgdl df k1_default b_default)"
  have fs: "map_err (\<lambda>i. bm25_score_doc (toks ! i) q_terms N avgdl df k1_default b_default)
              [0..<length full_docs] = Inr (map sc full_docs)"
    and rs: "map_err (\<lambda>d. bm25_score_doc (tokenize d) q_terms N avgdl df k1_default b_default)
              red_docs = Inr (map sc red_docs)"
    unfolding sc_def by (rule strict_scores [OF st])+
  have lenf: "length (map sc full_docs) = length full_docs"
    and lenr: "length (map sc red_docs) = length red_docs"
    by simp_all
  obtain full_top where ft: "topk_docs full_docs (map sc full_docs) k = Inr full_top"
    by (simp add: topk_docs_def)
  obtain red_top where rt: "topk_reconstructed red_docs (map sc red_docs) counts_map k = Inr red_top"
    and rdocs: "map e_doc red_top
                  = take (nat k)
                      (concat (map (\<lambda>i. replicate (nat (counts_get counts_map (red_docs ! i)))
                                          (red_docs ! i))
                                 (sort_order red_docs (map sc red_docs))))"
    using topk_reconstructed_docs [OF lenr] by blast
  have counts: "concat (map (\<lambda>i. replicate (nat (counts_get counts_map (red_docs ! i)))
                                          (red_docs ! i))
                                 (sort_order red_docs (map sc red_docs)))
                = concat (map (\<lambda>i. replicate (count_list full_docs (red_docs ! i)) (red_docs ! i))
                            (sort_order red_docs (map sc red_docs)))"
  proof (rule concat_map_cong)
    fix i assume "i \<in> set (sort_order red_docs (map sc red_docs))"
    then have "i < length red_docs"
      using sort_order_props [of red_docs "map sc red_docs"] by simp
    then have "red_docs ! i \<in> set red_docs"
      by simp
    then have "counts_get counts_map (red_docs ! i) = int (count_list full_docs (red_docs ! i))"
      using assms(3) by (simp add: counts_get_def)
    then show "replicate (nat (counts_get counts_map (red_docs ! i))) (red_docs ! i)
                 = replicate (count_list full_docs (red_docs ! i)) (red_docs ! i)"
      by simp
  qed
  have same: "map e_doc full_top = map e_doc red_top \<and> int (length full_top) = k" if k0: "0 \<le> k"
  proof -
    obtain out where "topk_docs full_docs (map sc full_docs) k = Inr out"
      and "length out = min (nat k) (length full_docs)"
      and "map e_doc out
             = take (nat k) (map (\<lambda>i. full_docs ! i) (sort_order full_docs (map sc full_docs)))"
      using topk_docs_docs [OF lenf k0] by blast
    then have len: "length full_top = min (nat k) (length full_docs)"
      and fdocs: "map e_doc full_top
             = take (nat k) (map (\<lambda>i. full_docs ! i) (sort_order full_docs (map sc full_docs)))"
      using ft by simp_all
    have "map e_doc full_top = map e_doc red_top"
      unfolding fdocs rdocs counts
      by (simp only: full_vs_recon_docs [OF assms(1,2)])
    moreover have "int (length full_top) = k"
      using len k0 assms(4) by simp
    ultimately show ?thesis ..
  qed
  have agree: "e_doc (full_top ! j) = e_doc (red_top ! j)"
    if "j < length full_top" "j < length red_top" for j
  proof (cases "0 \<le> k")
    case True
    then have "map e_doc full_top ! j = map e_doc red_top ! j"
      using same by simp
    then show ?thesis
      using that by simp
  next
    case False
    then have "nat k = 0"
      by simp
    then have "map e_doc red_top = []"
      unfolding rdocs by (simp only: take_0)
    then have "red_top = []"
      by simp
    then show ?thesis
      using that by simp
  qed
  have diff: "diff_topk full_top red_top = []"
    by (rule diff_topk_same) (rule agree)
  have "strict_run full_docs red_docs counts_map q_terms k
          = Inr (full_top, red_top, diff_topk full_top red_top)"
    by (simp add: strict_run_def st fs rs ft rt)
  then show ?thesis
    using diff same by (simp add: status_pass_def)
qed

theorem strict_run_pass_witness:
  "distinct [''cat dog'', ''bird'']
   \<and> set [''cat dog'', ''bird''] = set [''cat dog'', ''cat dog'', ''bird'']
   \<and> [''cat dog'' \<mapsto> 2, ''bird'' \<mapsto> 1] ''cat dog''
       = Some (int (count_list [''cat dog'', ''cat dog'', ''bird''] ''cat dog''))
   \<and> [''cat dog'' \<mapsto> 2, ''bird'' \<mapsto> 1] ''bird''
       = Some (int (count_list [''cat dog'', ''cat dog'', ''bird''] ''bird''))
   \<and> (3::int) \<le> int (length [''cat dog'', ''cat dog'', ''bird''])
   \<and> (\<exists>full_top red_top.
         strict_run [''cat dog'', ''cat dog'', ''bird''] [''cat dog'', ''bird'']
           [''cat dog'' \<mapsto> 2, ''bird'' \<mapsto> 1] [''cat''] 3 = Inr (full_top, red_top, [])
         \<and> map e_doc full_top = map e_doc red_top
         \<and> int (length full_top) = 3)"
proof -
  have d: "distinct [''cat dog'', ''bird'']"
    by simp
  have s: "set [''cat dog'', ''bird''] = set [''cat dog'', ''cat dog'', ''bird'']"
    by auto
  have c1: "[''cat dog'' \<mapsto> 2, ''bird'' \<mapsto> 1] ''cat dog''
       = Some (int (count_list [''cat dog'', ''cat dog'', ''bird''] ''cat dog''))"
    by simp
  have c2: "[''cat dog'' \<mapsto> 2, ''bird'' \<mapsto> 1] ''bird''
       = Some (int (count_list [''cat dog'', ''cat dog'', ''bird''] ''bird''))"
    by simp
  have c: "\<forall>d\<in>set [''cat dog'', ''bird''].
             [''cat dog'' \<mapsto> 2, ''bird'' \<mapsto> 1] d
               = Some (int (count_list [''cat dog'', ''cat dog'', ''bird''] d))"
    by simp
  have k: "(3::int) \<le> int (length [''cat dog'', ''cat dog'', ''bird''])"
    by simp
  have k0: "(0::int) \<le> 3"
    by simp
  show ?thesis
    using d s c1 c2 k k0 strict_run_pass [OF d s c k, of "[''cat'']"] by blast
qed

end
